theory Spec2Isabelle
  imports Complex_Main
begin

section \<open>Configuration constants and data model of index.js\<close>

text \<open>
  The tile legend and the configuration constants, lines 9 to 39 of index.js.
  JavaScript numbers that only ever hold integers are modelled as \<open>int\<close>.
\<close>

datatype tile = TILE_EMPTY | TILE_WALL | TILE_SWORD | TILE_POTION

definition MAP_WIDTH :: int where "MAP_WIDTH = 40"
definition MAP_HEIGHT :: int where "MAP_HEIGHT = 24"
definition SWORD_COUNT :: int where "SWORD_COUNT = 1"
definition POTION_COUNT :: int where "POTION_COUNT = 2"
definition ROOM_MIN :: int where "ROOM_MIN = 3"
definition ROOM_MAX :: int where "ROOM_MAX = 8"
definition ROOM_COUNT_MIN :: int where "ROOM_COUNT_MIN = 5"
definition ROOM_COUNT_MAX :: int where "ROOM_COUNT_MAX = 10"
definition CORRIDOR_MIN :: int where "CORRIDOR_MIN = 3"
definition CORRIDOR_MAX :: int where "CORRIDOR_MAX = 5"
definition ENEMY_COUNT :: int where "ENEMY_COUNT = 10"
definition ENEMY_HP :: int where "ENEMY_HP = 5"
definition ENEMY_ATTACK :: int where "ENEMY_ATTACK = 1"
definition HERO_HP :: int where "HERO_HP = 10"
definition HERO_ATTACK :: int where "HERO_ATTACK = 1"

text \<open>
  The hero object \<open>{x, y, hp, maxHp, attack}\<close> and the enemy objects, which carry the
  same fields and the flag \<open>_justRetaliated\<close> (an identifier cannot start with an
  underscore here, so the flag is \<open>justRetaliated\<close>).
\<close>

record actor =
  x :: int
  y :: int
  hp :: int
  maxHp :: int
  attack :: int

record enemy = actor +
  justRetaliated :: bool

text \<open>A room \<open>{x, y, w, h}\<close>; the field names are prefixed to keep them apart from the actor's.\<close>

record room =
  room_x :: int
  room_y :: int
  room_w :: int
  room_h :: int

text \<open>
  The module-level variables \<open>map\<close>, \<open>hero\<close>, \<open>enemies\<close>, \<open>rooms\<close>,
  \<open>potionsCarried\<close>, \<open>killed\<close> and the two fields \<open>_gameOver\<close> and \<open>_win\<close> of the
  Game object, gathered in one state record. \<open>map\<close> is named \<open>mapTiles\<close> and \<open>_win\<close> is named
  \<open>winFlag\<close> (the method \<open>win\<close> keeps its name).
\<close>

record game =
  mapTiles :: "tile list list"
  hero :: actor
  enemies :: "enemy list"
  rooms :: "room list"
  potionsCarried :: int
  killed :: int
  gameOver :: bool
  winFlag :: bool

text \<open>The phase of the specification, read off the two flags as \<open>draw\<close> does (lines 208-209).\<close>

datatype phase = Playing | Won | Lost

definition phase_of :: "game \<Rightarrow> phase" where
  "phase_of s = (if gameOver s then (if winFlag s then Won else Lost) else Playing)"

text \<open>
  Errors. \<open>OutOfBounds\<close>: an access \<open>map[y][x]\<close> outside the grid. JavaScript throws a
  TypeError when the row is missing, reads \<open>undefined\<close> when only the column is missing and
  grows the row on such a write; the model stops at the first access outside the grid in all
  three cases, so a result \<open>Inr\<close> says that every access was inside the grid.
  \<open>TypeError\<close>: reading a field of \<open>undefined\<close> (\<open>moves[k]\<close> with \<open>k\<close> outside the array).
  \<open>OutOfDraws\<close>: the finite list of random draws given to the model is used up; the code
  would go on drawing.
\<close>

datatype error = OutOfBounds | TypeError | OutOfDraws

section \<open>Random integers\<close>

text \<open>
  \<open>randomInt(min,max) = Math.floor(Math.random()*(max-min+1))+min\<close> (line 430). The value of
  \<open>Math.random()\<close> is a parameter \<open>u\<close>: a double in \<open>[0,1)\<close>, hence a rational number
  (\<open>unitDraw\<close>). The product and the floor are taken exactly; the rounding of the
  double product is left out of the model.
\<close>

definition unitDraw :: "rat \<Rightarrow> bool" where
  "unitDraw u \<longleftrightarrow> 0 \<le> u \<and> u < 1"

definition randomInt :: "int \<Rightarrow> int \<Rightarrow> rat \<Rightarrow> int" where
  "randomInt lo hi u = \<lfloor>u * of_int (hi - lo + 1)\<rfloor> + lo"

section \<open>Grid access\<close>

definition inGrid :: "tile list list \<Rightarrow> int \<Rightarrow> int \<Rightarrow> bool" where
  "inGrid m cx cy \<longleftrightarrow>
     0 \<le> cy \<and> cy < int (length m) \<and> 0 \<le> cx \<and> cx < int (length (m ! nat cy))"

text \<open>Reading \<open>map[cy][cx]\<close>.\<close>

definition readTile :: "tile list list \<Rightarrow> int \<Rightarrow> int \<Rightarrow> error + tile" where
  "readTile m cx cy = (if inGrid m cx cy then Inr (m ! nat cy ! nat cx) else Inl OutOfBounds)"

text \<open>The assignment \<open>map[cy][cx] = t\<close>.\<close>

definition writeTile :: "tile list list \<Rightarrow> int \<Rightarrow> int \<Rightarrow> tile \<Rightarrow> error + tile list list" where
  "writeTile m cx cy t =
     (if inGrid m cx cy then Inr (m[nat cy := (m ! nat cy)[nat cx := t]]) else Inl OutOfBounds)"

text \<open>A grid of the configured shape: \<open>MAP_HEIGHT\<close> rows of \<open>MAP_WIDTH\<close> tiles.\<close>

definition wfGrid :: "tile list list \<Rightarrow> bool" where
  "wfGrid m \<longleftrightarrow> int (length m) = MAP_HEIGHT \<and> list_all (\<lambda>r. int (length r) = MAP_WIDTH) m"

section \<open>The turn engine\<close>

subsection \<open>Wrap-around of a candidate coordinate\<close>

text \<open>
  The four statements of lines 250-253 (and again 406-409), two per axis, in their order:
  \<open>if (nx < 0) nx = MAP_WIDTH - 1; if (nx >= MAP_WIDTH) nx = 0;\<close>
\<close>

definition wrapX :: "int \<Rightarrow> int" where
  "wrapX nx = (let nx1 = (if nx < 0 then MAP_WIDTH - 1 else nx)
               in if nx1 \<ge> MAP_WIDTH then 0 else nx1)"

definition wrapY :: "int \<Rightarrow> int" where
  "wrapY ny = (let ny1 = (if ny < 0 then MAP_HEIGHT - 1 else ny)
               in if ny1 \<ge> MAP_HEIGHT then 0 else ny1)"

subsection \<open>endGame and win\<close>

text \<open>Lines 317-322 and 384-388; \<open>draw\<close> changes no state.\<close>

definition endGame :: "game \<Rightarrow> game" where
  "endGame s = s\<lparr>hero := (hero s)\<lparr>hp := 0\<rparr>, gameOver := True, winFlag := False\<rparr>"

definition win :: "game \<Rightarrow> game" where
  "win s = s\<lparr>gameOver := True, winFlag := True\<rparr>"

subsection \<open>checkPickup\<close>

text \<open>Lines 265-275.\<close>

definition checkPickup :: "game \<Rightarrow> error + game" where
  "checkPickup s =
     (case readTile (mapTiles s) (x (hero s)) (y (hero s)) of
        Inl e \<Rightarrow> Inl e
      | Inr t \<Rightarrow>
          if t = TILE_POTION then
            (case writeTile (mapTiles s) (x (hero s)) (y (hero s)) TILE_EMPTY of
               Inl e \<Rightarrow> Inl e
             | Inr m \<Rightarrow>
                 Inr (s\<lparr>potionsCarried := potionsCarried s + 1,
                        hero := (hero s)\<lparr>hp := min (maxHp (hero s)) (hp (hero s) + POTION_COUNT)\<rparr>,
                        mapTiles := m\<rparr>))
          else if t = TILE_SWORD then
            (case writeTile (mapTiles s) (x (hero s)) (y (hero s)) TILE_EMPTY of
               Inl e \<Rightarrow> Inl e
             | Inr m \<Rightarrow>
                 Inr (s\<lparr>hero := (hero s)\<lparr>attack := attack (hero s) + SWORD_COUNT\<rparr>,
                        mapTiles := m\<rparr>))
          else Inr s)"

subsection \<open>adjacentEnemyDamage\<close>

text \<open>The array \<open>dirs\<close> of lines 278 and 292, as pairs \<open>(dx, dy)\<close>.\<close>

definition dirs :: "(int \<times> int) list" where
  "dirs = [(-1, 0), (1, 0), (0, -1), (0, 1)]"

text \<open>The predicate \<open>e => e.x === tx && e.y === ty\<close>.\<close>

definition atTile :: "int \<Rightarrow> int \<Rightarrow> 'a actor_scheme \<Rightarrow> bool" where
  "atTile tx ty e \<longleftrightarrow> x e = tx \<and> y e = ty"

text \<open>The body of the \<open>forEach\<close> of lines 279-286, for one direction.\<close>

definition damageFrom :: "game \<Rightarrow> int \<times> int \<Rightarrow> game" where
  "damageFrom s d =
     (let tx = x (hero s) + fst d; ty = y (hero s) + snd d
      in case find (atTile tx ty) (enemies s) of
           None \<Rightarrow> s
         | Some en \<Rightarrow> s\<lparr>hero := (hero s)\<lparr>hp := hp (hero s) - attack en\<rparr>\<rparr>)"

definition adjacentEnemyDamage :: "game \<Rightarrow> game" where
  "adjacentEnemyDamage s =
     (let s1 = foldl damageFrom s dirs
      in if hp (hero s1) \<le> 0 then endGame s1 else s1)"

subsection \<open>attemptMove\<close>

text \<open>Lines 245-263.\<close>

definition attemptMove :: "int \<Rightarrow> int \<Rightarrow> game \<Rightarrow> error + game" where
  "attemptMove dx dy s =
     (let nx = wrapX (x (hero s) + dx); ny = wrapY (y (hero s) + dy)
      in case readTile (mapTiles s) nx ny of
           Inl e \<Rightarrow> Inl e
         | Inr t \<Rightarrow>
             if t = TILE_WALL then Inr s
             else if list_ex (atTile nx ny) (enemies s) then Inr s
             else (case checkPickup (s\<lparr>hero := (hero s)\<lparr>x := nx, y := ny\<rparr>\<rparr>) of
                     Inl e \<Rightarrow> Inl e
                   | Inr s1 \<Rightarrow> Inr (adjacentEnemyDamage s1)))"

subsection \<open>heroAttack\<close>

text \<open>\<open>enemies.findIndex(p)\<close>: the index of the first element satisfying \<open>p\<close>, \<open>None\<close> for -1.\<close>

fun findIndex :: "('a \<Rightarrow> bool) \<Rightarrow> 'a list \<Rightarrow> nat option" where
  "findIndex p [] = None"
| "findIndex p (e # es) =
     (if p e then Some 0 else (case findIndex p es of None \<Rightarrow> None | Some k \<Rightarrow> Some (Suc k)))"

text \<open>\<open>enemies.splice(idx, 1)\<close>: the list without its element at \<open>idx\<close>.\<close>

definition splice1 :: "nat \<Rightarrow> 'a list \<Rightarrow> 'a list" where
  "splice1 idx es = take idx es @ drop (Suc idx) es"

text \<open>
  The body of the \<open>forEach\<close> of lines 293-308, for one direction. \<open>en\<close> is the object
  \<open>enemies[idx]\<close> itself, so \<open>en.hp -= hero.attack\<close> and the flag are written into the list.
\<close>

definition attackSlot :: "game \<Rightarrow> int \<times> int \<Rightarrow> game" where
  "attackSlot s d =
     (let tx = x (hero s) + fst d; ty = y (hero s) + snd d
      in case findIndex (atTile tx ty) (enemies s) of
           None \<Rightarrow> s
         | Some idx \<Rightarrow>
             (let en = (enemies s ! idx)\<lparr>hp := hp (enemies s ! idx) - attack (hero s)\<rparr>
              in if hp en > 0 then
                   s\<lparr>hero := (hero s)\<lparr>hp := hp (hero s) - attack en\<rparr>,
                     enemies := (enemies s)[idx := en\<lparr>justRetaliated := True\<rparr>]\<rparr>
                 else
                   s\<lparr>enemies := splice1 idx (enemies s), killed := killed s + 1\<rparr>))"

text \<open>Lines 290-315: all four slots, then the victory check, then the defeat check.\<close>

definition heroAttack :: "game \<Rightarrow> game" where
  "heroAttack s =
     (let s1 = foldl attackSlot s dirs
      in if enemies s1 = [] \<or> killed s1 \<ge> ENEMY_COUNT then win s1
         else if hp (hero s1) \<le> 0 then endGame s1
         else s1)"

subsection \<open>updateEnemies\<close>

text \<open>The array \<open>moves\<close> of line 403.\<close>

definition moves :: "(int \<times> int) list" where
  "moves = [(0, 0), (-1, 0), (1, 0), (0, -1), (0, 1)]"

text \<open>
  \<open>enemies.some((oth,idx) => idx !== i && oth.x === nx && oth.y === ny)\<close> of line 411.
\<close>

definition otherEnemyAt :: "nat \<Rightarrow> int \<Rightarrow> int \<Rightarrow> enemy list \<Rightarrow> bool" where
  "otherEnemyAt i nx ny es \<longleftrightarrow>
     list_ex (\<lambda>k. k \<noteq> i \<and> atTile nx ny (es ! k)) [0 ..< length es]"

text \<open>
  One iteration of the loop of lines 391-415, for the enemy at index \<open>i\<close>. The result holds
  whether the function returned from inside the loop (line 400), the draws left and the
  state. A draw is taken only on the path that reaches line 404.
\<close>

definition enemyTurn :: "nat \<Rightarrow> rat list \<Rightarrow> game \<Rightarrow> error + (bool \<times> rat list \<times> game)" where
  "enemyTurn i us s =
     (let e = enemies s ! i;
          dx = \<bar>x e - x (hero s)\<bar>;
          dy = \<bar>y e - y (hero s)\<bar>
      in if justRetaliated e then
           Inr (False, us, s\<lparr>enemies := (enemies s)[i := e\<lparr>justRetaliated := False\<rparr>]\<rparr>)
         else if (dx = 1 \<and> dy = 0) \<or> (dx = 0 \<and> dy = 1) then
           (let s1 = s\<lparr>hero := (hero s)\<lparr>hp := hp (hero s) - attack e\<rparr>\<rparr>
            in if hp (hero s1) \<le> 0 then Inr (True, us, endGame s1) else Inr (False, us, s1))
         else
           (case us of
              [] \<Rightarrow> Inl OutOfDraws
            | u # us1 \<Rightarrow>
                (let k = randomInt 0 (int (length moves) - 1) u
                 in if k < 0 \<or> k \<ge> int (length moves) then Inl TypeError
                    else
                      (let mv = moves ! nat k;
                           nx = wrapX (x e + fst mv);
                           ny = wrapY (y e + snd mv)
                       in if fst mv \<noteq> 0 \<or> snd mv \<noteq> 0 then
                            (case readTile (mapTiles s) nx ny of
                               Inl er \<Rightarrow> Inl er
                             | Inr t \<Rightarrow>
                                 if t = TILE_EMPTY \<and> \<not> (nx = x (hero s) \<and> ny = y (hero s))
                                    \<and> \<not> otherEnemyAt i nx ny (enemies s)
                                 then Inr (False, us1,
                                        s\<lparr>enemies := (enemies s)[i := e\<lparr>x := nx, y := ny\<rparr>]\<rparr>)
                                 else Inr (False, us1, s))
                          else Inr (False, us1, s)))))"

text \<open>The loop \<open>for (let i = 0; i < enemies.length; i++)\<close>, from index \<open>i\<close> on.\<close>

function updateEnemiesFrom :: "nat \<Rightarrow> rat list \<Rightarrow> game \<Rightarrow> error + game" where
  "updateEnemiesFrom i us s =
     (if i < length (enemies s) then
        (case enemyTurn i us s of
           Inl e \<Rightarrow> Inl e
         | Inr (stop, us1, s1) \<Rightarrow> if stop then Inr s1 else updateEnemiesFrom (i + 1) us1 s1)
      else Inr s)"
  by pat_completeness auto
termination
  by (relation "measure (\<lambda>(i, us, s). length (enemies s) - i)")
     (auto simp: enemyTurn_def Let_def endGame_def split: if_splits list.splits sum.splits)

definition updateEnemies :: "rat list \<Rightarrow> game \<Rightarrow> error + game" where
  "updateEnemies us s = updateEnemiesFrom 0 us s"

subsection \<open>handleInput\<close>

text \<open>
  The keys of \<open>keyMap\<close> (lines 181-186). The Cyrillic letters are written as the bytes of
  their UTF-8 encoding. \<open>key\<close> ranges over the values of \<open>KeyboardEvent.key\<close>: a
  printable character or the name of a key, none of which is the name of a property that
  \<open>keyMap\<close> inherits from \<open>Object.prototype\<close>, so \<open>e.key in keyMap\<close> holds
  exactly for the twenty keys listed.
\<close>

definition keyMap :: "string \<Rightarrow> (int \<times> int) option" where
  "keyMap k =
     (if k \<in> {''w'', ''W'', ''ArrowUp'', [CHR 0xD1, CHR 0x86], [CHR 0xD0, CHR 0xA6]} then Some (0, -1)
      else if k \<in> {''a'', ''A'', ''ArrowLeft'', [CHR 0xD1, CHR 0x84], [CHR 0xD0, CHR 0xA4]} then Some (-1, 0)
      else if k \<in> {''s'', ''S'', ''ArrowDown'', [CHR 0xD1, CHR 0x8B], [CHR 0xD0, CHR 0xAB]} then Some (0, 1)
      else if k \<in> {''d'', ''D'', ''ArrowRight'', [CHR 0xD0, CHR 0xB2], [CHR 0xD0, CHR 0x92]} then Some (1, 0)
      else None)"

text \<open>
  Lines 177-203. \<open>us\<close> are the values \<open>Math.random()\<close> returns during this call;
  \<open>draw\<close>, \<open>updateHUD\<close> and \<open>preventDefault\<close> change no state of the game.
\<close>

definition handleInput :: "string \<Rightarrow> rat list \<Rightarrow> game \<Rightarrow> error + game" where
  "handleInput key us s =
     (if gameOver s then Inr s
      else case keyMap key of
             Some (dx, dy) \<Rightarrow>
               (case attemptMove dx dy s of
                  Inl e \<Rightarrow> Inl e
                | Inr s1 \<Rightarrow> updateEnemies us s1)
           | None \<Rightarrow>
               if key = '' '' then updateEnemies us (heroAttack s)
               else Inr s)"

section \<open>Map generation and entity placement\<close>

text \<open>
  The functions below draw from a list \<open>us\<close> of values of \<open>Math.random()\<close> and return
  the draws left beside the new state. A rejection loop that uses up the list ends in
  \<open>OutOfDraws\<close>.
\<close>

subsection \<open>generateMap\<close>

text \<open>Lines 78-82.\<close>

definition generateMap :: "game \<Rightarrow> game" where
  "generateMap s = s\<lparr>mapTiles := replicate (nat MAP_HEIGHT) (replicate (nat MAP_WIDTH) TILE_WALL)\<rparr>"

subsection \<open>placeRooms\<close>

text \<open>A sequence of assignments \<open>map[cy][cx] = TILE_EMPTY\<close>, in the order given.\<close>

fun carve :: "tile list list \<Rightarrow> (int \<times> int) list \<Rightarrow> error + tile list list" where
  "carve m [] = Inr m"
| "carve m (c # cs) =
     (case writeTile m (fst c) (snd c) TILE_EMPTY of
        Inl e \<Rightarrow> Inl e
      | Inr m1 \<Rightarrow> carve m1 cs)"

text \<open>
  The cells \<open>(rx, ry)\<close> the two nested loops of lines 94-98 visit:
  \<open>ry\<close> from \<open>y\<close> to \<open>y + h - 1\<close>, and for each \<open>rx\<close> from \<open>x\<close> to \<open>x + w - 1\<close>.
\<close>

definition roomCells :: "room \<Rightarrow> (int \<times> int) list" where
  "roomCells r =
     concat (map (\<lambda>ry. map (\<lambda>rx. (rx, ry)) [room_x r .. room_x r + room_w r - 1])
                 [room_y r .. room_y r + room_h r - 1])"

text \<open>The loop of lines 87-99 with \<open>n\<close> iterations left.\<close>

fun placeRoomsLoop :: "nat \<Rightarrow> rat list \<Rightarrow> game \<Rightarrow> error + (game \<times> rat list)" where
  "placeRoomsLoop 0 us s = Inr (s, us)"
| "placeRoomsLoop (Suc n) us s =
     (case us of
        uw # uh # ux # uy # us1 \<Rightarrow>
          (let w = randomInt ROOM_MIN ROOM_MAX uw;
               h = randomInt ROOM_MIN ROOM_MAX uh;
               rx = randomInt 1 (MAP_WIDTH - w - 2) ux;
               ry = randomInt 1 (MAP_HEIGHT - h - 2) uy;
               r = \<lparr>room_x = rx, room_y = ry, room_w = w, room_h = h\<rparr>
           in case carve (mapTiles s) (roomCells r) of
                Inl e \<Rightarrow> Inl e
              | Inr m \<Rightarrow> placeRoomsLoop n us1 (s\<lparr>rooms := rooms s @ [r], mapTiles := m\<rparr>))
      | _ \<Rightarrow> Inl OutOfDraws)"

definition placeRooms :: "rat list \<Rightarrow> game \<Rightarrow> error + (game \<times> rat list)" where
  "placeRooms us s =
     (case us of
        [] \<Rightarrow> Inl OutOfDraws
      | uc # us1 \<Rightarrow>
          placeRoomsLoop (nat (randomInt ROOM_COUNT_MIN ROOM_COUNT_MAX uc)) us1 (s\<lparr>rooms := []\<rparr>))"

subsection \<open>carveCorridors\<close>

text \<open>
  Lines 103-112: consecutive rooms are joined by a horizontal run in the row of the first
  centre and a vertical run in the column of the second. For integers
  \<open>Math.floor(r.x + r.w / 2)\<close> is \<open>r.x + r.w div 2\<close>.
\<close>

fun connectRooms :: "room list \<Rightarrow> tile list list \<Rightarrow> error + tile list list" where
  "connectRooms (r1 # r2 # rs) m =
     (let x1 = room_x r1 + room_w r1 div 2;
          y1 = room_y r1 + room_h r1 div 2;
          x2 = room_x r2 + room_w r2 div 2;
          y2 = room_y r2 + room_h r2 div 2
      in case carve m (map (\<lambda>cx. (cx, y1)) [min x1 x2 .. max x1 x2]) of
           Inl e \<Rightarrow> Inl e
         | Inr m1 \<Rightarrow>
             (case carve m1 (map (\<lambda>cy. (x2, cy)) [min y1 y2 .. max y1 y2]) of
                Inl e \<Rightarrow> Inl e
              | Inr m2 \<Rightarrow> connectRooms (r2 # rs) m2))"
| "connectRooms rs m = Inr m"

text \<open>Lines 117-120 and 122-125: the full-span corridors, \<open>n\<close> iterations left.\<close>

fun hCorridors :: "nat \<Rightarrow> rat list \<Rightarrow> tile list list \<Rightarrow> error + (tile list list \<times> rat list)" where
  "hCorridors 0 us m = Inr (m, us)"
| "hCorridors (Suc n) us m =
     (case us of
        [] \<Rightarrow> Inl OutOfDraws
      | u # us1 \<Rightarrow>
          (let cy = randomInt 1 (MAP_HEIGHT - 2) u
           in case carve m (map (\<lambda>cx. (cx, cy)) [0 .. MAP_WIDTH - 1]) of
                Inl e \<Rightarrow> Inl e
              | Inr m1 \<Rightarrow> hCorridors n us1 m1))"

fun vCorridors :: "nat \<Rightarrow> rat list \<Rightarrow> tile list list \<Rightarrow> error + (tile list list \<times> rat list)" where
  "vCorridors 0 us m = Inr (m, us)"
| "vCorridors (Suc n) us m =
     (case us of
        [] \<Rightarrow> Inl OutOfDraws
      | u # us1 \<Rightarrow>
          (let cx = randomInt 1 (MAP_WIDTH - 2) u
           in case carve m (map (\<lambda>cy. (cx, cy)) [0 .. MAP_HEIGHT - 1]) of
                Inl e \<Rightarrow> Inl e
              | Inr m1 \<Rightarrow> vCorridors n us1 m1))"

definition carveCorridors :: "rat list \<Rightarrow> game \<Rightarrow> error + (game \<times> rat list)" where
  "carveCorridors us s =
     (case connectRooms (rooms s) (mapTiles s) of
        Inl e \<Rightarrow> Inl e
      | Inr m1 \<Rightarrow>
          (case us of
             uh # uv # us1 \<Rightarrow>
               (let hCount = randomInt CORRIDOR_MIN CORRIDOR_MAX uh;
                    vCount = randomInt CORRIDOR_MIN CORRIDOR_MAX uv
                in case hCorridors (nat hCount) us1 m1 of
                     Inl e \<Rightarrow> Inl e
                   | Inr (m2, us2) \<Rightarrow>
                       (case vCorridors (nat vCount) us2 m2 of
                          Inl e \<Rightarrow> Inl e
                        | Inr (m3, us3) \<Rightarrow> Inr (s\<lparr>mapTiles := m3\<rparr>, us3)))
           | _ \<Rightarrow> Inl OutOfDraws))"

subsection \<open>placeHero\<close>

text \<open>The loop \<open>while (true)\<close> of lines 147-151.\<close>

fun placeHeroLoop :: "rat list \<Rightarrow> game \<Rightarrow> error + (game \<times> rat list)" where
  "placeHeroLoop (ux # uy # us) s =
     (let cx = randomInt 0 (MAP_WIDTH - 1) ux;
          cy = randomInt 0 (MAP_HEIGHT - 1) uy
      in case readTile (mapTiles s) cx cy of
           Inl e \<Rightarrow> Inl e
         | Inr t \<Rightarrow>
             if t = TILE_EMPTY then Inr (s\<lparr>hero := (hero s)\<lparr>x := cx, y := cy\<rparr>\<rparr>, us)
             else placeHeroLoop us s)"
| "placeHeroLoop us s = Inl OutOfDraws"

definition placeHero :: "rat list \<Rightarrow> game \<Rightarrow> error + (game \<times> rat list)" where
  "placeHero us s =
     placeHeroLoop us
       (s\<lparr>hero := \<lparr>x = 0, y = 0, hp = HERO_HP, maxHp = HERO_HP, attack = HERO_ATTACK\<rparr>\<rparr>)"

subsection \<open>placeItems\<close>

text \<open>
  The loop \<open>while (placed < limit)\<close> that lines 130-134 run for \<open>TILE_SWORD\<close> and lines
  136-140 for \<open>TILE_POTION\<close>; \<open>placed\<close> is the counter so far.
\<close>

function placeTiles :: "tile \<Rightarrow> int \<Rightarrow> int \<Rightarrow> rat list \<Rightarrow> game \<Rightarrow> error + (game \<times> rat list)" where
  "placeTiles t limit placed us s =
     (if placed < limit then
        (case us of
           ux # uy # us1 \<Rightarrow>
             (let cx = randomInt 0 (MAP_WIDTH - 1) ux;
                  cy = randomInt 0 (MAP_HEIGHT - 1) uy
              in case readTile (mapTiles s) cx cy of
                   Inl e \<Rightarrow> Inl e
                 | Inr t0 \<Rightarrow>
                     if t0 = TILE_EMPTY \<and> \<not> (cx = x (hero s) \<and> cy = y (hero s)) then
                       (case writeTile (mapTiles s) cx cy t of
                          Inl e \<Rightarrow> Inl e
                        | Inr m \<Rightarrow> placeTiles t limit (placed + 1) us1 (s\<lparr>mapTiles := m\<rparr>))
                     else placeTiles t limit placed us1 s)
         | _ \<Rightarrow> Inl OutOfDraws)
      else Inr (s, us))"
  by pat_completeness auto
termination
  by (relation "measure (\<lambda>(t, limit, placed, us, s). length us)") auto

text \<open>Lines 128-141, with the two bounds as the source writes them: \<open>2\<close> and \<open>10\<close>.\<close>

definition placeItems :: "rat list \<Rightarrow> game \<Rightarrow> error + (game \<times> rat list)" where
  "placeItems us s =
     (case placeTiles TILE_SWORD 2 0 us s of
        Inl e \<Rightarrow> Inl e
      | Inr (s1, us1) \<Rightarrow> placeTiles TILE_POTION 10 0 us1 s1)"

subsection \<open>placeEnemies\<close>

text \<open>The loop of lines 157-164; \<open>count\<close> is the counter so far.\<close>

function placeEnemiesLoop :: "int \<Rightarrow> rat list \<Rightarrow> game \<Rightarrow> error + (game \<times> rat list)" where
  "placeEnemiesLoop count us s =
     (if count < ENEMY_COUNT then
        (case us of
           ux # uy # us1 \<Rightarrow>
             (let cx = randomInt 0 (MAP_WIDTH - 1) ux;
                  cy = randomInt 0 (MAP_HEIGHT - 1) uy
              in case readTile (mapTiles s) cx cy of
                   Inl e \<Rightarrow> Inl e
                 | Inr t0 \<Rightarrow>
                     if t0 = TILE_EMPTY \<and> (cx \<noteq> x (hero s) \<or> cy \<noteq> y (hero s))
                        \<and> \<not> list_ex (atTile cx cy) (enemies s)
                     then
                       placeEnemiesLoop (count + 1) us1
                         (s\<lparr>enemies := enemies s @
                              [\<lparr>x = cx, y = cy, hp = ENEMY_HP, maxHp = ENEMY_HP,
                                attack = ENEMY_ATTACK, justRetaliated = False\<rparr>]\<rparr>)
                     else placeEnemiesLoop count us1 s)
         | _ \<Rightarrow> Inl OutOfDraws)
      else Inr (s, us))"
  by pat_completeness auto
termination
  by (relation "measure (\<lambda>(count, us, s). length us)") auto

definition placeEnemies :: "rat list \<Rightarrow> game \<Rightarrow> error + (game \<times> rat list)" where
  "placeEnemies us s = placeEnemiesLoop 0 us (s\<lparr>enemies := []\<rparr>)"

subsection \<open>init\<close>

text \<open>
  Lines 52-70, up to \<open>placeEnemies\<close>; \<open>resizeField\<close>, \<open>draw\<close>, \<open>bindInput\<close> and
  \<open>updateHUD\<close> change no state of the game.
\<close>

definition init :: "rat list \<Rightarrow> game \<Rightarrow> error + (game \<times> rat list)" where
  "init us s =
     (let s0 = generateMap (s\<lparr>potionsCarried := 0, killed := 0, gameOver := False, winFlag := False\<rparr>)
      in case placeRooms us s0 of
           Inl e \<Rightarrow> Inl e
         | Inr (s1, us1) \<Rightarrow>
             (case carveCorridors us1 s1 of
                Inl e \<Rightarrow> Inl e
              | Inr (s2, us2) \<Rightarrow>
                  (case placeHero us2 s2 of
                     Inl e \<Rightarrow> Inl e
                   | Inr (s3, us3) \<Rightarrow>
                       (case placeItems us3 s3 of
                          Inl e \<Rightarrow> Inl e
                        | Inr (s4, us4) \<Rightarrow> placeEnemies us4 s4))))"

text \<open>The values of the module-level variables when the script is loaded (lines 42-49).\<close>

definition initialGlobals :: game where
  "initialGlobals =
     \<lparr>mapTiles = [],
      hero = \<lparr>x = 0, y = 0, hp = HERO_HP, maxHp = HERO_HP, attack = HERO_ATTACK\<rparr>,
      enemies = [], rooms = [], potionsCarried = 0, killed = 0,
      gameOver = False, winFlag = False\<rparr>"

subsection \<open>Reachable states\<close>

text \<open>
  The states a game can be in: after \<open>init\<close> on the freshly loaded script, after a key
  event handled by \<open>handleInput\<close>, and after the Restart button (shown on the two
  game-over screens), whose handler runs \<open>init\<close> again. Every draw is a value of
  \<open>Math.random()\<close>, so it lies in \<open>[0,1)\<close>.
\<close>

inductive reachable :: "game \<Rightarrow> bool" where
  start: "list_all unitDraw us \<Longrightarrow> init us initialGlobals = Inr (s, us1) \<Longrightarrow> reachable s"
| action: "reachable s \<Longrightarrow> list_all unitDraw us \<Longrightarrow> handleInput key us s = Inr s1 \<Longrightarrow> reachable s1"
| restart: "reachable s \<Longrightarrow> gameOver s \<Longrightarrow> list_all unitDraw us \<Longrightarrow>
            init us (s\<lparr>potionsCarried := 0, killed := 0\<rparr>) = Inr (s1, us1) \<Longrightarrow> reachable s1"

section \<open>Predicates and example states used in the statements\<close>

text \<open>An actor stands on a cell of the grid.\<close>

definition inBounds :: "'a actor_scheme \<Rightarrow> bool" where
  "inBounds e \<longleftrightarrow> 0 \<le> x e \<and> x e < MAP_WIDTH \<and> 0 \<le> y e \<and> y e < MAP_HEIGHT"

text \<open>A grid with one full-width corridor in row 1, as line 119 carves it.\<close>

definition corridorGrid :: "tile list list" where
  "corridorGrid = (replicate 24 (replicate 40 TILE_WALL))[1 := replicate 40 TILE_EMPTY]"

text \<open>
  A late state of a game: eight enemies killed, two left in the corridor, the hero at
  \<open>(5, 1)\<close> with one hit point.
\<close>

definition duelState :: game where
  "duelState =
     \<lparr>mapTiles = corridorGrid,
      hero = \<lparr>x = 5, y = 1, hp = 1, maxHp = 10, attack = 1\<rparr>,
      enemies = [\<lparr>x = 20, y = 1, hp = 5, maxHp = 5, attack = 1, justRetaliated = False\<rparr>,
                 \<lparr>x = 7, y = 1, hp = 5, maxHp = 5, attack = 1, justRetaliated = False\<rparr>],
      rooms = [], potionsCarried = 0, killed = 8, gameOver = False, winFlag = False\<rparr>"

text \<open>
  The hero at \<open>(6, 1)\<close> between two enemies: the one to the west dies from one blow, the
  one to the east survives it. A third enemy stands far away.
\<close>

definition meleeState :: game where
  "meleeState =
     \<lparr>mapTiles = corridorGrid,
      hero = \<lparr>x = 6, y = 1, hp = 10, maxHp = 10, attack = 1\<rparr>,
      enemies = [\<lparr>x = 5, y = 1, hp = 1, maxHp = 5, attack = 1, justRetaliated = False\<rparr>,
                 \<lparr>x = 7, y = 1, hp = 5, maxHp = 5, attack = 1, justRetaliated = False\<rparr>,
                 \<lparr>x = 20, y = 1, hp = 5, maxHp = 5, attack = 1, justRetaliated = False\<rparr>],
      rooms = [], potionsCarried = 0, killed = 7, gameOver = False, winFlag = False\<rparr>"

text \<open>
  The hero on an edge of the grid and an enemy on the opposite edge, in the same row or
  column: the two cells between which one move wraps.
\<close>

definition wrapOpposite :: "actor \<Rightarrow> enemy \<Rightarrow> bool" where
  "wrapOpposite h e \<longleftrightarrow>
     (y e = y h \<and> ((x h = 0 \<and> x e = MAP_WIDTH - 1) \<or> (x h = MAP_WIDTH - 1 \<and> x e = 0)))
     \<or> (x e = x h \<and> ((y h = 0 \<and> y e = MAP_HEIGHT - 1) \<or> (y h = MAP_HEIGHT - 1 \<and> y e = 0)))"

text \<open>The hero at the west end of the corridor and one enemy at its east end.\<close>

definition edgeState :: game where
  "edgeState =
     \<lparr>mapTiles = corridorGrid,
      hero = \<lparr>x = 0, y = 1, hp = 10, maxHp = 10, attack = 1\<rparr>,
      enemies = [\<lparr>x = 39, y = 1, hp = 5, maxHp = 5, attack = 1, justRetaliated = False\<rparr>],
      rooms = [], potionsCarried = 0, killed = 9, gameOver = False, winFlag = False\<rparr>"

section \<open>The hero's attack, as the specification words it\<close>

text \<open>The cell an actor stands on, and the four orthogonal neighbours of the hero's cell.\<close>

definition cellOf :: "'a actor_scheme \<Rightarrow> int \<times> int" where
  "cellOf e = (x e, y e)"

definition neighbourCells :: "actor \<Rightarrow> (int \<times> int) set" where
  "neighbourCells h = {(x h - 1, y h), (x h + 1, y h), (x h, y h - 1), (x h, y h + 1)}"

text \<open>
  What a blow of strength \<open>a\<close> on the cells \<open>T\<close> makes of one enemy: outside \<open>T\<close> it
  is untouched; on \<open>T\<close> it loses \<open>a\<close> hit points and, if it has some left, is flagged as
  having retaliated, else it is gone.
\<close>

definition strikeIn :: "(int \<times> int) set \<Rightarrow> int \<Rightarrow> enemy \<Rightarrow> enemy list" where
  "strikeIn T a e =
     (if cellOf e \<in> T then
        (if hp e - a > 0 then [e\<lparr>hp := hp e - a, justRetaliated := True\<rparr>] else [])
      else [e])"

text \<open>
  The blow on all enemies at once: every enemy on \<open>T\<close> is struck, each survivor takes its
  own attack off the hero's hit points once, and each enemy that dies counts as one kill.
\<close>

definition strikeSpec :: "(int \<times> int) set \<Rightarrow> game \<Rightarrow> game" where
  "strikeSpec T s =
     s\<lparr>hero := (hero s)\<lparr>hp := hp (hero s)
                  - sum_list (map attack
                      (filter (\<lambda>e. cellOf e \<in> T \<and> hp e - attack (hero s) > 0) (enemies s)))\<rparr>,
       enemies := concat (map (strikeIn T (attack (hero s))) (enemies s)),
       killed := killed s
                  + int (length (filter (\<lambda>e. cellOf e \<in> T \<and> hp e - attack (hero s) \<le> 0) (enemies s)))\<rparr>"

definition attackSpec :: "game \<Rightarrow> game" where
  "attackSpec s = strikeSpec (neighbourCells (hero s)) s"

section \<open>Counting tiles, and a state for item placement\<close>

text \<open>The number of cells of the grid that hold the tile \<open>t\<close>.\<close>

definition countTile :: "tile \<Rightarrow> tile list list \<Rightarrow> int" where
  "countTile t m = int (length (filter (\<lambda>c. c = t) (concat m)))"

text \<open>
  The map with one corridor, the hero placed at \<open>(1, 1)\<close>, nothing else placed yet,
  and draws that pick the cells \<open>(2, 1)\<close> to \<open>(13, 1)\<close> one after the other.
\<close>

definition itemState :: game where
  "itemState =
     \<lparr>mapTiles = corridorGrid,
      hero = \<lparr>x = 1, y = 1, hp = 10, maxHp = 10, attack = 1\<rparr>,
      enemies = [], rooms = [], potionsCarried = 0, killed = 0, gameOver = False, winFlag = False\<rparr>"

definition itemDraws :: "rat list" where
  "itemDraws = concat (map (\<lambda>k. [of_nat k / 40, 1 / 24]) [2 ..< 14])"

section \<open>Predicates on generated maps and on states\<close>

text \<open>A cell with at least one cell of margin to every side of the grid.\<close>

definition interior :: "int \<times> int \<Rightarrow> bool" where
  "interior c \<longleftrightarrow> 1 \<le> fst c \<and> fst c \<le> MAP_WIDTH - 2 \<and> 1 \<le> snd c \<and> snd c \<le> MAP_HEIGHT - 2"

text \<open>
  Draws for one run of \<open>init\<close>: five rooms of 3 by 3 cells at \<open>(1, 1)\<close>, three
  full-width corridors in row 1 and three full-height corridors in column 1, the hero at
  \<open>(5, 1)\<close>, the two swords on \<open>(12, 1)\<close> and \<open>(13, 1)\<close>, the first potion on
  \<open>(4, 1)\<close> west of the hero and nine more along the corridor, the first enemy on
  \<open>(6, 1)\<close> east of the hero and nine more on \<open>(20, 1)\<close> to \<open>(28, 1)\<close>.
\<close>

definition roomDraws :: "rat list" where
  "roomDraws = [0, 0, 0, 0, 0, 0, 0, 0, 0, 0, 0, 0, 0, 0, 0, 0, 0, 0, 0, 0, 0]"

definition startDraws :: "rat list" where
  "startDraws = roomDraws @
     [0, 0, 0, 0, 0, 0, 0, 0,
      5 / 40, 1 / 24,
      12 / 40, 1 / 24, 13 / 40, 1 / 24,
      4 / 40, 1 / 24, 2 / 40, 1 / 24, 3 / 40, 1 / 24, 7 / 40, 1 / 24, 8 / 40, 1 / 24,
      9 / 40, 1 / 24, 10 / 40, 1 / 24, 11 / 40, 1 / 24, 14 / 40, 1 / 24, 15 / 40, 1 / 24,
      6 / 40, 1 / 24, 20 / 40, 1 / 24, 21 / 40, 1 / 24, 22 / 40, 1 / 24, 23 / 40, 1 / 24,
      24 / 40, 1 / 24, 25 / 40, 1 / 24, 26 / 40, 1 / 24, 27 / 40, 1 / 24, 28 / 40, 1 / 24]"

text \<open>The state \<open>init\<close> produces from these draws.\<close>

definition startState :: game where
  "startState = (case init startDraws initialGlobals of Inr (s, us) \<Rightarrow> s | Inl e \<Rightarrow> initialGlobals)"

text \<open>
  The states of a fight that starts there: the hero strikes the enemy east of him again
  and again. \<open>fightState h eh\<close> is the start state with \<open>h\<close> hit points of the hero and
  \<open>eh\<close> of that enemy; \<open>afterKill\<close> is the state after the fifth blow.
\<close>

definition fightState :: "int \<Rightarrow> int \<Rightarrow> game" where
  "fightState h eh =
     startState\<lparr>hero := (hero startState)\<lparr>hp := h\<rparr>,
                enemies := (enemies startState)[0 := (enemies startState ! 0)\<lparr>hp := eh\<rparr>]\<rparr>"

definition afterKill :: game where
  "afterKill =
     startState\<lparr>hero := (hero startState)\<lparr>hp := 6\<rparr>,
                enemies := tl (enemies startState), killed := 1\<rparr>"

text \<open>
  The invariant of the game: the grid has its shape, hero and enemies stand on it, the
  enemies on distinct cells and with attacks that are not negative; the hero's hit points
  are at most \<open>maxHp\<close>, are 0 exactly when the game is lost; the kills and the enemies left
  add up to \<open>ENEMY_COUNT\<close>; and a won game has no enemy left.
\<close>

definition gameInv :: "game \<Rightarrow> bool" where
  "gameInv s \<longleftrightarrow>
     wfGrid (mapTiles s) \<and> inBounds (hero s)
     \<and> list_all (\<lambda>e. inBounds e \<and> 0 \<le> attack e) (enemies s)
     \<and> distinct (map cellOf (enemies s))
     \<and> hp (hero s) \<le> maxHp (hero s)
     \<and> (if phase_of s = Lost then hp (hero s) = 0 else 0 < hp (hero s))
     \<and> killed s + int (length (enemies s)) = ENEMY_COUNT
     \<and> (if phase_of s = Won then enemies s = [] else True)"

section \<open>Basic facts\<close>

lemmas config_defs =
  MAP_WIDTH_def MAP_HEIGHT_def SWORD_COUNT_def POTION_COUNT_def ROOM_MIN_def ROOM_MAX_def
  ROOM_COUNT_MIN_def ROOM_COUNT_MAX_def CORRIDOR_MIN_def CORRIDOR_MAX_def ENEMY_COUNT_def
  ENEMY_HP_def ENEMY_ATTACK_def HERO_HP_def HERO_ATTACK_def

lemma wrapX_range: "0 \<le> wrapX n \<and> wrapX n < MAP_WIDTH"
  by (simp add: wrapX_def Let_def MAP_WIDTH_def)

lemma wrapY_range: "0 \<le> wrapY n \<and> wrapY n < MAP_HEIGHT"
  by (simp add: wrapY_def Let_def MAP_HEIGHT_def)

lemma wfGrid_inGrid:
  assumes "wfGrid m" "0 \<le> cx" "cx < MAP_WIDTH" "0 \<le> cy" "cy < MAP_HEIGHT"
  shows "inGrid m cx cy"
proof -
  from assms have len: "nat cy < length m" unfolding wfGrid_def by linarith
  with assms(1) have "int (length (m ! nat cy)) = MAP_WIDTH"
    by (simp add: wfGrid_def list_all_length)
  with assms len show ?thesis by (simp add: inGrid_def)
qed

lemma wfGrid_update:
  assumes "wfGrid m"
  shows "wfGrid (m[i := (m ! i)[j := t]])"
  using assms by (cases "i < length m") (auto simp: wfGrid_def list_all_length nth_list_update)

lemma writeTile_wf: "writeTile m cx cy t = Inr m1 \<Longrightarrow> wfGrid m \<Longrightarrow> wfGrid m1"
  by (auto simp: writeTile_def wfGrid_update split: if_splits)

lemma checkPickup_total:
  assumes "wfGrid (mapTiles s)" "inBounds (hero s)"
  shows "\<exists>s1. checkPickup s = Inr s1 \<and> wfGrid (mapTiles s1) \<and> x (hero s1) = x (hero s) \<and> y (hero s1) = y (hero s)
     \<and> enemies s1 = enemies s"
proof -
  have g: "inGrid (mapTiles s) (x (hero s)) (y (hero s))"
    using assms by (auto simp: inBounds_def intro: wfGrid_inGrid)
  show ?thesis
    using g assms(1) by (auto simp: checkPickup_def readTile_def writeTile_def wfGrid_update)
qed

lemma damageFrom_frame:
  "mapTiles (damageFrom s d) = mapTiles s \<and> enemies (damageFrom s d) = enemies s
   \<and> x (hero (damageFrom s d)) = x (hero s) \<and> y (hero (damageFrom s d)) = y (hero s)
   \<and> maxHp (hero (damageFrom s d)) = maxHp (hero s) \<and> attack (hero (damageFrom s d)) = attack (hero s)
   \<and> killed (damageFrom s d) = killed s \<and> potionsCarried (damageFrom s d) = potionsCarried s
   \<and> gameOver (damageFrom s d) = gameOver s \<and> winFlag (damageFrom s d) = winFlag s
   \<and> rooms (damageFrom s d) = rooms s"
  by (simp add: damageFrom_def Let_def split: option.splits)

lemma foldl_damageFrom_frame:
  "mapTiles (foldl damageFrom s ds) = mapTiles s \<and> enemies (foldl damageFrom s ds) = enemies s
   \<and> x (hero (foldl damageFrom s ds)) = x (hero s) \<and> y (hero (foldl damageFrom s ds)) = y (hero s)
   \<and> maxHp (hero (foldl damageFrom s ds)) = maxHp (hero s)
   \<and> attack (hero (foldl damageFrom s ds)) = attack (hero s)
   \<and> killed (foldl damageFrom s ds) = killed s \<and> potionsCarried (foldl damageFrom s ds) = potionsCarried s
   \<and> gameOver (foldl damageFrom s ds) = gameOver s \<and> winFlag (foldl damageFrom s ds) = winFlag s
   \<and> rooms (foldl damageFrom s ds) = rooms s"
  by (induction ds arbitrary: s) (simp_all add: damageFrom_frame)

lemma adjacentEnemyDamage_frame:
  "mapTiles (adjacentEnemyDamage s) = mapTiles s \<and> enemies (adjacentEnemyDamage s) = enemies s
   \<and> x (hero (adjacentEnemyDamage s)) = x (hero s) \<and> y (hero (adjacentEnemyDamage s)) = y (hero s)
   \<and> maxHp (hero (adjacentEnemyDamage s)) = maxHp (hero s)
   \<and> attack (hero (adjacentEnemyDamage s)) = attack (hero s)
   \<and> killed (adjacentEnemyDamage s) = killed s
   \<and> potionsCarried (adjacentEnemyDamage s) = potionsCarried s
   \<and> rooms (adjacentEnemyDamage s) = rooms s"
  by (simp add: adjacentEnemyDamage_def Let_def endGame_def foldl_damageFrom_frame)

lemma attemptMove_total:
  assumes wf: "wfGrid (mapTiles s)"
  shows "\<exists>s1. attemptMove dx dy s = Inr s1 \<and> wfGrid (mapTiles s1) \<and> enemies s1 = enemies s
          \<and> (s1 = s \<or> (x (hero s1) = wrapX (x (hero s) + dx) \<and> y (hero s1) = wrapY (y (hero s) + dy)))"
proof -
  let ?nx = "wrapX (x (hero s) + dx)" and ?ny = "wrapY (y (hero s) + dy)"
  let ?s = "s\<lparr>hero := (hero s)\<lparr>x := ?nx, y := ?ny\<rparr>\<rparr>"
  have g: "inGrid (mapTiles s) ?nx ?ny"
    using wf wrapX_range wrapY_range by (intro wfGrid_inGrid) auto
  have "wfGrid (mapTiles ?s)" "inBounds (hero ?s)"
    using wf wrapX_range wrapY_range by (simp_all add: inBounds_def)
  from checkPickup_total[OF this] obtain s1 where
    s1: "checkPickup ?s = Inr s1" "wfGrid (mapTiles s1)" "x (hero s1) = ?nx" "y (hero s1) = ?ny"
        "enemies s1 = enemies s"
    by auto
  show ?thesis
    using g s1 wf
    by (simp add: attemptMove_def Let_def readTile_def adjacentEnemyDamage_frame)
qed

lemma enemyTurn_cases:
  assumes "enemyTurn i us s = Inr (b, us1, s1)"
  obtains
    (skip) "justRetaliated (enemies s ! i)" "\<not> b" "us1 = us"
           "s1 = s\<lparr>enemies := (enemies s)[i := (enemies s ! i)\<lparr>justRetaliated := False\<rparr>]\<rparr>"
  | (hit) "\<not> justRetaliated (enemies s ! i)" "\<not> b" "us1 = us"
          "(\<bar>x (enemies s ! i) - x (hero s)\<bar> = 1 \<and> \<bar>y (enemies s ! i) - y (hero s)\<bar> = 0)
           \<or> (\<bar>x (enemies s ! i) - x (hero s)\<bar> = 0 \<and> \<bar>y (enemies s ! i) - y (hero s)\<bar> = 1)"
          "hp (hero s) - attack (enemies s ! i) > 0"
          "s1 = s\<lparr>hero := (hero s)\<lparr>hp := hp (hero s) - attack (enemies s ! i)\<rparr>\<rparr>"
  | (kill) "\<not> justRetaliated (enemies s ! i)" "b" "us1 = us"
          "(\<bar>x (enemies s ! i) - x (hero s)\<bar> = 1 \<and> \<bar>y (enemies s ! i) - y (hero s)\<bar> = 0)
           \<or> (\<bar>x (enemies s ! i) - x (hero s)\<bar> = 0 \<and> \<bar>y (enemies s ! i) - y (hero s)\<bar> = 1)"
          "hp (hero s) - attack (enemies s ! i) \<le> 0"
          "s1 = endGame (s\<lparr>hero := (hero s)\<lparr>hp := hp (hero s) - attack (enemies s ! i)\<rparr>\<rparr>)"
  | (stay) u where "\<not> justRetaliated (enemies s ! i)" "\<not> b" "us = u # us1" "s1 = s"
  | (move) u mv where "\<not> justRetaliated (enemies s ! i)" "\<not> b" "us = u # us1"
          "mv \<in> set moves"
          "readTile (mapTiles s) (wrapX (x (enemies s ! i) + fst mv)) (wrapY (y (enemies s ! i) + snd mv))
             = Inr TILE_EMPTY"
          "\<not> (wrapX (x (enemies s ! i) + fst mv) = x (hero s) \<and> wrapY (y (enemies s ! i) + snd mv) = y (hero s))"
          "\<not> otherEnemyAt i (wrapX (x (enemies s ! i) + fst mv)) (wrapY (y (enemies s ! i) + snd mv)) (enemies s)"
          "s1 = s\<lparr>enemies := (enemies s)[i := (enemies s ! i)
                   \<lparr>x := wrapX (x (enemies s ! i) + fst mv), y := wrapY (y (enemies s ! i) + snd mv)\<rparr>]\<rparr>"
proof (cases "justRetaliated (enemies s ! i)")
  case True
  with assms skip show ?thesis by (simp add: enemyTurn_def Let_def)
next
  case nf: False
  show ?thesis
  proof (cases "(\<bar>x (enemies s ! i) - x (hero s)\<bar> = 1 \<and> \<bar>y (enemies s ! i) - y (hero s)\<bar> = 0)
           \<or> (\<bar>x (enemies s ! i) - x (hero s)\<bar> = 0 \<and> \<bar>y (enemies s ! i) - y (hero s)\<bar> = 1)")
    case adj: True
    show ?thesis
    proof (cases "hp (hero s) - attack (enemies s ! i) \<le> 0")
      case True
      with assms nf adj have "b" "us1 = us"
        "s1 = endGame (s\<lparr>hero := (hero s)\<lparr>hp := hp (hero s) - attack (enemies s ! i)\<rparr>\<rparr>)"
        by (simp_all add: enemyTurn_def Let_def)
      with kill nf adj True show ?thesis by blast
    next
      case False
      with assms nf adj have "\<not> b" "us1 = us"
        "s1 = s\<lparr>hero := (hero s)\<lparr>hp := hp (hero s) - attack (enemies s ! i)\<rparr>\<rparr>"
        by (simp_all add: enemyTurn_def Let_def)
      with hit nf adj False show ?thesis by simp
    qed
  next
    case nadj: False
    from assms nf nadj obtain u where us: "us = u # us1"
      by (cases us) (auto simp: enemyTurn_def Let_def split: if_splits sum.splits)
    let ?k = "randomInt 0 (int (length moves) - 1) u"
    from assms nf nadj us have k: "\<not> (?k < 0 \<or> ?k \<ge> int (length moves))"
      by (auto simp: enemyTurn_def Let_def split: if_splits)
    let ?mv = "moves ! nat ?k"
    from k have mv: "?mv \<in> set moves" by (intro nth_mem) linarith
    let ?nx = "wrapX (x (enemies s ! i) + fst ?mv)" and ?ny = "wrapY (y (enemies s ! i) + snd ?mv)"
    from assms nf nadj us k have nb: "\<not> b"
      by (auto simp: enemyTurn_def Let_def split: if_splits sum.splits)
    show ?thesis
    proof (cases "s1 = s")
      case True
      with stay nf nb us show ?thesis by simp
    next
      case False
      with assms nf nadj us k have
        "readTile (mapTiles s) ?nx ?ny = Inr TILE_EMPTY"
        "\<not> (?nx = x (hero s) \<and> ?ny = y (hero s))"
        "\<not> otherEnemyAt i ?nx ?ny (enemies s)"
        "s1 = s\<lparr>enemies := (enemies s)[i := (enemies s ! i)\<lparr>x := ?nx, y := ?ny\<rparr>]\<rparr>"
        by (auto simp: enemyTurn_def Let_def split: if_splits sum.splits)
      with move[OF nf nb us mv] show ?thesis by blast
    qed
  qed
qed

lemma enemyTurn_frame:
  assumes "enemyTurn i us s = Inr (b, us1, s1)"
  shows "mapTiles s1 = mapTiles s \<and> x (hero s1) = x (hero s) \<and> y (hero s1) = y (hero s)
         \<and> length (enemies s1) = length (enemies s) \<and> killed s1 = killed s
         \<and> maxHp (hero s1) = maxHp (hero s) \<and> attack (hero s1) = attack (hero s)
         \<and> potionsCarried s1 = potionsCarried s \<and> rooms s1 = rooms s
         \<and> (\<forall>k. k \<noteq> i \<longrightarrow> enemies s1 ! k = enemies s ! k)"
  using assms by (cases rule: enemyTurn_cases) (simp_all add: endGame_def)

lemma enemyTurn_no_oob:
  assumes "wfGrid (mapTiles s)"
  shows "enemyTurn i us s \<noteq> Inl OutOfBounds"
proof -
  have "\<And>a b. inGrid (mapTiles s) (wrapX a) (wrapY b)"
    using assms wrapX_range wrapY_range by (intro wfGrid_inGrid) auto
  then show ?thesis
    by (simp add: enemyTurn_def Let_def readTile_def split: list.splits)
qed

lemma enemyTurn_inBounds:
  assumes "enemyTurn i us s = Inr (b, us1, s1)" "i < length (enemies s)" "inBounds (enemies s ! i)"
  shows "inBounds (enemies s1 ! i)"
  using assms(1)
proof (cases rule: enemyTurn_cases)
  case (move u mv)
  then show ?thesis using assms(2) wrapX_range wrapY_range by (simp add: inBounds_def)
qed (use assms in \<open>simp_all add: inBounds_def endGame_def\<close>)

lemma sweep_preserves:
  assumes step: "\<And>i us s b us1 s1. P s \<Longrightarrow> i < length (enemies s) \<Longrightarrow>
                   enemyTurn i us s = Inr (b, us1, s1) \<Longrightarrow> P s1"
  shows "P s \<Longrightarrow> updateEnemiesFrom i us s = Inr s1 \<Longrightarrow> P s1"
proof (induction i us s rule: updateEnemiesFrom.induct)
  case (1 i us s)
  show ?case
  proof (cases "i < length (enemies s)")
    case False
    with "1.prems" show ?thesis by simp
  next
    case True
    from True "1.prems"(2) obtain b us2 s2 where t: "enemyTurn i us s = Inr (b, us2, s2)"
      by (auto split: sum.splits)
    have P2: "P s2" using step[OF "1.prems"(1) True t] .
    show ?thesis
    proof (cases b)
      case True
      with t \<open>i < length (enemies s)\<close> "1.prems"(2) P2 show ?thesis by simp
    next
      case False
      with t \<open>i < length (enemies s)\<close> "1.prems"(2) have "updateEnemiesFrom (i + 1) us2 s2 = Inr s1"
        by simp
      from "1.IH"[OF \<open>i < length (enemies s)\<close> t refl refl False P2 this] show ?thesis .
    qed
  qed
qed

lemma sweep_no_oob:
  "wfGrid (mapTiles s) \<Longrightarrow> updateEnemiesFrom i us s \<noteq> Inl OutOfBounds"
proof (induction i us s rule: updateEnemiesFrom.induct)
  case (1 i us s)
  show ?case
  proof (cases "i < length (enemies s)")
    case False
    then show ?thesis by simp
  next
    case True
    show ?thesis
    proof (cases "enemyTurn i us s")
      case (Inl e)
      with enemyTurn_no_oob[OF "1.prems", of i us] True show ?thesis by simp
    next
      case (Inr r)
      obtain b us2 s2 where r: "r = (b, us2, s2)" by (cases r) auto
      with Inr have t: "enemyTurn i us s = Inr (b, us2, s2)" by simp
      have wf2: "wfGrid (mapTiles s2)" using enemyTurn_frame[OF t] "1.prems" by simp
      show ?thesis
      proof (cases b)
        case True
        with t \<open>i < length (enemies s)\<close> show ?thesis by simp
      next
        case False
        from "1.IH"[OF \<open>i < length (enemies s)\<close> t refl refl False wf2] t False
          \<open>i < length (enemies s)\<close>
        show ?thesis by simp
      qed
    qed
  qed
qed

lemma wfGrid_corridorGrid: "wfGrid corridorGrid"
  by (simp add: wfGrid_def corridorGrid_def config_defs list_all_length nth_list_update)

lemma heroAttack_mapTiles: "mapTiles (heroAttack s) = mapTiles s"
proof -
  have a: "\<And>s d. mapTiles (attackSlot s d) = mapTiles s"
    by (simp add: attackSlot_def Let_def split: option.splits)
  have "\<And>s. mapTiles (foldl attackSlot s ds) = mapTiles s" for ds
    by (induction ds) (simp_all add: a)
  then show ?thesis by (simp add: heroAttack_def Let_def win_def endGame_def)
qed

section \<open>C6: movement stays inside the grid\<close>

text \<open>
  C6. Whatever the hero's position and the direction, the candidate position computed by
  \<open>attemptMove\<close> lies in \<open>[0,MAP_WIDTH) \<times> [0,MAP_HEIGHT)\<close>. On a grid of the configured
  shape \<open>attemptMove\<close> returns a state, and neither one enemy's turn, nor the whole enemy
  sweep, nor \<open>handleInput\<close> ever accesses the grid out of bounds. An enemy that stands on
  the grid before its turn stands on the grid after it.
\<close>

theorem movement_in_bounds:
  "0 \<le> wrapX (x (hero s) + dx) \<and> wrapX (x (hero s) + dx) < MAP_WIDTH
   \<and> 0 \<le> wrapY (y (hero s) + dy) \<and> wrapY (y (hero s) + dy) < MAP_HEIGHT
   \<and> (wfGrid (mapTiles s) \<longrightarrow>
        (\<exists>s1. attemptMove dx dy s = Inr s1)
        \<and> enemyTurn i us s \<noteq> Inl OutOfBounds
        \<and> updateEnemies us s \<noteq> Inl OutOfBounds
        \<and> handleInput key us s \<noteq> Inl OutOfBounds)
   \<and> (i < length (enemies s) \<and> inBounds (enemies s ! i) \<and> enemyTurn i us s = Inr (b, us1, s1)
        \<longrightarrow> inBounds (enemies s1 ! i))"
proof -
  have cand: "0 \<le> wrapX (x (hero s) + dx) \<and> wrapX (x (hero s) + dx) < MAP_WIDTH
     \<and> 0 \<le> wrapY (y (hero s) + dy) \<and> wrapY (y (hero s) + dy) < MAP_HEIGHT"
    using wrapX_range wrapY_range by simp
  have grid: "(\<exists>s1. attemptMove dx dy s = Inr s1) \<and> enemyTurn i us s \<noteq> Inl OutOfBounds
        \<and> updateEnemies us s \<noteq> Inl OutOfBounds \<and> handleInput key us s \<noteq> Inl OutOfBounds"
    if wf: "wfGrid (mapTiles s)"
  proof -
    have h: "handleInput key us s \<noteq> Inl OutOfBounds"
    proof (cases "keyMap key")
      case None
      then show ?thesis
        using sweep_no_oob[of "heroAttack s" 0 us] wf
        by (simp add: handleInput_def updateEnemies_def heroAttack_mapTiles)
    next
      case (Some d)
      obtain kx ky where d: "d = (kx, ky)" by (cases d) auto
      from attemptMove_total[OF wf, of kx ky] obtain s2 where
        "attemptMove kx ky s = Inr s2" "wfGrid (mapTiles s2)" by auto
      then show ?thesis
        using Some d sweep_no_oob[of s2 0 us]
        by (simp add: handleInput_def updateEnemies_def)
    qed
    show ?thesis
      using attemptMove_total[OF wf, of dx dy] enemyTurn_no_oob[OF wf] sweep_no_oob[OF wf, of 0 us] h
      by (auto simp: updateEnemies_def)
  qed
  have step: "inBounds (enemies s1 ! i)"
    if "i < length (enemies s)" "inBounds (enemies s ! i)" "enemyTurn i us s = Inr (b, us1, s1)"
    using enemyTurn_inBounds[OF that(3) that(1) that(2)] .
  from cand grid step show ?thesis by blast
qed

theorem movement_in_bounds_witness:
  "wfGrid (mapTiles duelState)
   \<and> attemptMove 1 0 duelState \<noteq> Inl OutOfBounds
   \<and> handleInput ''d'' [2 / 5] duelState \<noteq> Inl OutOfBounds
   \<and> 0 < length (enemies duelState) \<and> inBounds (enemies duelState ! 0)
   \<and> enemyTurn 0 [2 / 5] duelState
       = Inr (False, [], duelState\<lparr>enemies := (enemies duelState)[0 := (enemies duelState ! 0)\<lparr>x := 21\<rparr>]\<rparr>)
   \<and> inBounds ((enemies duelState)[0 := (enemies duelState ! 0)\<lparr>x := 21\<rparr>] ! 0)"
proof -
  have wf: "wfGrid (mapTiles duelState)" by (simp add: duelState_def wfGrid_corridorGrid)
  have e: "0 < length (enemies duelState) \<and> inBounds (enemies duelState ! 0)"
    by (simp add: duelState_def inBounds_def config_defs)
  have t: "enemyTurn 0 [2 / 5] duelState
       = Inr (False, [], duelState\<lparr>enemies := (enemies duelState)[0 := (enemies duelState ! 0)\<lparr>x := 21\<rparr>]\<rparr>)"
    by (simp add: enemyTurn_def duelState_def Let_def randomInt_def moves_def wrapX_def wrapY_def
        readTile_def inGrid_def corridorGrid_def config_defs otherEnemyAt_def atTile_def)
  from movement_in_bounds[of duelState 1 0 0 "[2 / 5]" "''d''" False "[]"
      "duelState\<lparr>enemies := (enemies duelState)[0 := (enemies duelState ! 0)\<lparr>x := 21\<rparr>]\<rparr>"] wf e t
  show ?thesis by auto
qed
lemma findIndex_Some:
  "findIndex p es = Some k \<Longrightarrow> k < length es \<and> p (es ! k) \<and> (\<forall>j<k. \<not> p (es ! j))"
proof (induction es arbitrary: k)
  case Nil
  then show ?case by simp
next
  case (Cons e es)
  show ?case
  proof (cases "p e")
    case True
    with Cons.prems show ?thesis by simp
  next
    case False
    with Cons.prems obtain k0 where k0: "findIndex p es = Some k0" "k = Suc k0"
      by (auto split: option.splits)
    from Cons.IH[OF k0(1)] False k0(2) show ?thesis
      by (auto simp: nth_Cons split: nat.splits)
  qed
qed

lemma findIndex_None: "findIndex p es = None \<longleftrightarrow> (\<forall>e\<in>set es. \<not> p e)"
  by (induction es) (auto split: option.splits)

lemma find_splice1:
  "i < length es \<Longrightarrow> \<not> p (es ! i) \<Longrightarrow> find p (splice1 i es) = find p es"
proof (induction es arbitrary: i)
  case Nil
  then show ?case by simp
next
  case (Cons e es)
  then show ?case
    by (cases i) (auto simp: splice1_def)
qed

lemma nth_in_splice1:
  assumes "j < length es" "j \<noteq> idx"
  shows "es ! j \<in> set (splice1 idx es)"
proof (cases "j < idx")
  case True
  with assms have "es ! j = take idx es ! j" "j < length (take idx es)" by simp_all
  then have "es ! j \<in> set (take idx es)" by (metis nth_mem)
  then show ?thesis by (simp add: splice1_def)
next
  case False
  with assms have gt: "Suc idx \<le> j" by simp
  then have "es ! j = drop (Suc idx) es ! (j - Suc idx)" using assms by simp
  moreover have "j - Suc idx < length (drop (Suc idx) es)" using assms gt by simp
  ultimately have "es ! j \<in> set (drop (Suc idx) es)" by (metis nth_mem)
  then show ?thesis by (simp add: splice1_def)
qed

section \<open>C8: a blocked move changes nothing\<close>

text \<open>
  C8. When the wrapped candidate tile of a move is a wall, or an enemy stands on it,
  \<open>attemptMove\<close> returns the state it was given: position, hit points and attack of the
  hero, the grid, \<open>potionsCarried\<close> and the phase are as before.
\<close>

theorem blocked_move_unchanged:
  assumes "wfGrid (mapTiles s)"
    and "readTile (mapTiles s) (wrapX (x (hero s) + dx)) (wrapY (y (hero s) + dy)) = Inr TILE_WALL
         \<or> (\<exists>e \<in> set (enemies s). x e = wrapX (x (hero s) + dx) \<and> y e = wrapY (y (hero s) + dy))"
  shows "attemptMove dx dy s = Inr s"
proof -
  let ?nx = "wrapX (x (hero s) + dx)" and ?ny = "wrapY (y (hero s) + dy)"
  have "inGrid (mapTiles s) ?nx ?ny"
    using assms(1) wrapX_range wrapY_range by (intro wfGrid_inGrid) auto
  then obtain t where t: "readTile (mapTiles s) ?nx ?ny = Inr t"
    by (simp add: readTile_def)
  from assms(2) show ?thesis
  proof
    assume "readTile (mapTiles s) ?nx ?ny = Inr TILE_WALL"
    then show ?thesis by (simp add: attemptMove_def Let_def)
  next
    assume "\<exists>e \<in> set (enemies s). x e = ?nx \<and> y e = ?ny"
    then have "list_ex (atTile ?nx ?ny) (enemies s)"
      by (auto simp: list_ex_iff atTile_def)
    with t show ?thesis by (simp add: attemptMove_def Let_def)
  qed
qed

theorem blocked_move_unchanged_witness:
  "wfGrid (mapTiles meleeState)
   \<and> readTile (mapTiles meleeState) (wrapX (x (hero meleeState) + 0)) (wrapY (y (hero meleeState) + (-1)))
       = Inr TILE_WALL
   \<and> attemptMove 0 (-1) meleeState = Inr meleeState
   \<and> (\<exists>e \<in> set (enemies meleeState). x e = wrapX (x (hero meleeState) + 1) \<and> y e = wrapY (y (hero meleeState) + 0))
   \<and> attemptMove 1 0 meleeState = Inr meleeState"
proof -
  have wf: "wfGrid (mapTiles meleeState)" by (simp add: meleeState_def wfGrid_corridorGrid)
  have wall: "readTile (mapTiles meleeState) (wrapX (x (hero meleeState) + 0)) (wrapY (y (hero meleeState) + (-1)))
       = Inr TILE_WALL"
    by (simp add: meleeState_def wrapX_def wrapY_def readTile_def inGrid_def corridorGrid_def config_defs)
  have en: "\<exists>e \<in> set (enemies meleeState). x e = wrapX (x (hero meleeState) + 1) \<and> y e = wrapY (y (hero meleeState) + 0)"
    by (simp add: meleeState_def wrapX_def wrapY_def config_defs)
  from blocked_move_unchanged[of meleeState 0 "-1"] blocked_move_unchanged[of meleeState 1 0] wf wall en
  show ?thesis by blast
qed

lemma attackSlot_frame:
  "mapTiles (attackSlot s d) = mapTiles s \<and> x (hero (attackSlot s d)) = x (hero s)
   \<and> y (hero (attackSlot s d)) = y (hero s) \<and> maxHp (hero (attackSlot s d)) = maxHp (hero s)
   \<and> attack (hero (attackSlot s d)) = attack (hero s)
   \<and> potionsCarried (attackSlot s d) = potionsCarried s \<and> rooms (attackSlot s d) = rooms s
   \<and> gameOver (attackSlot s d) = gameOver s \<and> winFlag (attackSlot s d) = winFlag s"
  by (simp add: attackSlot_def Let_def split: option.splits)

lemma attackSlot_keeps:
  assumes "e \<in> set (enemies s)"
    and "\<not> atTile (x (hero s) + fst d) (y (hero s) + snd d) e"
  shows "e \<in> set (enemies (attackSlot s d))"
proof (cases "findIndex (atTile (x (hero s) + fst d) (y (hero s) + snd d)) (enemies s)")
  case None
  with assms(1) show ?thesis by (simp add: attackSlot_def Let_def)
next
  case (Some idx)
  from findIndex_Some[OF Some] have idx: "idx < length (enemies s)"
    "atTile (x (hero s) + fst d) (y (hero s) + snd d) (enemies s ! idx)" by simp_all
  from assms(1) obtain j where j: "j < length (enemies s)" "enemies s ! j = e"
    by (auto simp: in_set_conv_nth)
  with idx(2) assms(2) have ne: "j \<noteq> idx" by auto
  have a: "e \<in> set (splice1 idx (enemies s))"
    using nth_in_splice1[OF j(1) ne] j(2) by simp
  have b: "e \<in> set ((enemies s)[idx := v])" for v
    using j ne by (metis length_list_update nth_list_update_neq nth_mem)
  show ?thesis
    using Some a b by (simp add: attackSlot_def Let_def)
qed

lemma foldl_attackSlot_frame:
  "mapTiles (foldl attackSlot s ds) = mapTiles s \<and> x (hero (foldl attackSlot s ds)) = x (hero s)
   \<and> y (hero (foldl attackSlot s ds)) = y (hero s)
   \<and> maxHp (hero (foldl attackSlot s ds)) = maxHp (hero s)
   \<and> attack (hero (foldl attackSlot s ds)) = attack (hero s)
   \<and> potionsCarried (foldl attackSlot s ds) = potionsCarried s
   \<and> rooms (foldl attackSlot s ds) = rooms s
   \<and> gameOver (foldl attackSlot s ds) = gameOver s \<and> winFlag (foldl attackSlot s ds) = winFlag s"
  by (induction ds arbitrary: s) (simp_all add: attackSlot_frame)

lemma foldl_attackSlot_keeps:
  assumes "e \<in> set (enemies s)"
    and "\<forall>d \<in> set ds. \<not> atTile (x (hero s) + fst d) (y (hero s) + snd d) e"
  shows "e \<in> set (enemies (foldl attackSlot s ds))"
  using assms
proof (induction ds arbitrary: s)
  case Nil
  then show ?case by simp
next
  case (Cons d ds)
  have "e \<in> set (enemies (attackSlot s d))"
    using attackSlot_keeps[OF Cons.prems(1)] Cons.prems(2) by simp
  moreover have "\<forall>d' \<in> set ds. \<not> atTile (x (hero (attackSlot s d)) + fst d')
                   (y (hero (attackSlot s d)) + snd d') e"
    using Cons.prems(2) by (simp add: attackSlot_frame)
  ultimately show ?case using Cons.IH by simp
qed

lemma heroAttack_enemies: "enemies (heroAttack s) = enemies (foldl attackSlot s dirs)"
  by (simp add: heroAttack_def Let_def win_def endGame_def)

lemma damageFrom_remove:
  assumes "i < length (enemies s)"
    and "\<not> atTile (x (hero s) + fst d) (y (hero s) + snd d) (enemies s ! i)"
  shows "damageFrom (s\<lparr>enemies := splice1 i (enemies s)\<rparr>) d
           = (damageFrom s d)\<lparr>enemies := splice1 i (enemies s)\<rparr>"
  using find_splice1[of i "enemies s" "atTile (x (hero s) + fst d) (y (hero s) + snd d)"] assms
  by (simp add: damageFrom_def Let_def split: option.splits)

lemma foldl_damageFrom_remove:
  assumes "i < length (enemies s)"
    and "\<forall>d \<in> set ds. \<not> atTile (x (hero s) + fst d) (y (hero s) + snd d) (enemies s ! i)"
  shows "foldl damageFrom (s\<lparr>enemies := splice1 i (enemies s)\<rparr>) ds
           = (foldl damageFrom s ds)\<lparr>enemies := splice1 i (enemies s)\<rparr>"
  using assms
proof (induction ds arbitrary: s)
  case Nil
  then show ?case by simp
next
  case (Cons d ds)
  have 1: "damageFrom (s\<lparr>enemies := splice1 i (enemies s)\<rparr>) d
           = (damageFrom s d)\<lparr>enemies := splice1 i (enemies (damageFrom s d))\<rparr>"
    using damageFrom_remove[OF Cons.prems(1)] Cons.prems(2) by (simp add: damageFrom_frame)
  have 2: "i < length (enemies (damageFrom s d))"
    using Cons.prems(1) by (simp add: damageFrom_frame)
  have 3: "\<forall>d' \<in> set ds. \<not> atTile (x (hero (damageFrom s d)) + fst d')
             (y (hero (damageFrom s d)) + snd d') (enemies (damageFrom s d) ! i)"
    using Cons.prems(2) by (simp add: damageFrom_frame)
  from Cons.IH[OF 2 3] 1 show ?case by (simp add: damageFrom_frame)
qed

section \<open>C9: adjacency does not wrap\<close>

text \<open>
  C9. Let the hero stand on an edge of the grid and the enemy at index \<open>i\<close> on the opposite
  edge, in the same row or column. One move of the hero wraps onto the enemy's cell. Yet
  the enemy is not a neighbour in any of the three adjacency computations:
  \<open>adjacentEnemyDamage\<close> does to the hero exactly what it does when that enemy is taken out
  of the list; \<open>heroAttack\<close> leaves the enemy in the list as it is; and the enemy's own
  turn in \<open>updateEnemies\<close> neither changes the hero nor ends the game.
\<close>

theorem adjacency_does_not_wrap:
  assumes "i < length (enemies s)"
    and "inBounds (hero s)"
    and "wrapOpposite (hero s) (enemies s ! i)"
  shows "(\<exists>d \<in> set dirs. wrapX (x (hero s) + fst d) = x (enemies s ! i)
                        \<and> wrapY (y (hero s) + snd d) = y (enemies s ! i))
       \<and> adjacentEnemyDamage (s\<lparr>enemies := splice1 i (enemies s)\<rparr>)
           = (adjacentEnemyDamage s)\<lparr>enemies := splice1 i (enemies s)\<rparr>
       \<and> enemies s ! i \<in> set (enemies (heroAttack s))
       \<and> (\<forall>us b us1 s1. enemyTurn i us s = Inr (b, us1, s1) \<longrightarrow> hero s1 = hero s \<and> \<not> b)"
proof -
  let ?e = "enemies s ! i"
  from assms(3) consider
      (west) "y ?e = y (hero s)" "x (hero s) = 0" "x ?e = MAP_WIDTH - 1"
    | (east) "y ?e = y (hero s)" "x (hero s) = MAP_WIDTH - 1" "x ?e = 0"
    | (north) "x ?e = x (hero s)" "y (hero s) = 0" "y ?e = MAP_HEIGHT - 1"
    | (south) "x ?e = x (hero s)" "y (hero s) = MAP_HEIGHT - 1" "y ?e = 0"
    unfolding wrapOpposite_def by blast
  note opp = this
  have far: "\<forall>d \<in> set dirs. \<not> atTile (x (hero s) + fst d) (y (hero s) + snd d) ?e"
    by (cases rule: opp) (simp_all add: dirs_def atTile_def config_defs)
  have yb: "wrapY (y (hero s)) = y (hero s)" and xb: "wrapX (x (hero s)) = x (hero s)"
    using assms(2) by (simp_all add: wrapX_def wrapY_def inBounds_def)
  have wraps: "\<exists>d \<in> set dirs. wrapX (x (hero s) + fst d) = x ?e \<and> wrapY (y (hero s) + snd d) = y ?e"
  proof (cases rule: opp)
    case west
    then have "(-1, 0) \<in> set dirs \<and> wrapX (x (hero s) + fst (-1 :: int, 0 :: int)) = x ?e
                \<and> wrapY (y (hero s) + snd (-1 :: int, 0 :: int)) = y ?e"
      using yb by (simp add: dirs_def wrapX_def config_defs)
    then show ?thesis by blast
  next
    case east
    then have "(1, 0) \<in> set dirs \<and> wrapX (x (hero s) + fst (1 :: int, 0 :: int)) = x ?e
                \<and> wrapY (y (hero s) + snd (1 :: int, 0 :: int)) = y ?e"
      using yb by (simp add: dirs_def wrapX_def config_defs)
    then show ?thesis by blast
  next
    case north
    then have "(0, -1) \<in> set dirs \<and> wrapX (x (hero s) + fst (0 :: int, -1 :: int)) = x ?e
                \<and> wrapY (y (hero s) + snd (0 :: int, -1 :: int)) = y ?e"
      using xb by (simp add: dirs_def wrapY_def config_defs)
    then show ?thesis by blast
  next
    case south
    then have "(0, 1) \<in> set dirs \<and> wrapX (x (hero s) + fst (0 :: int, 1 :: int)) = x ?e
                \<and> wrapY (y (hero s) + snd (0 :: int, 1 :: int)) = y ?e"
      using xb by (simp add: dirs_def wrapY_def config_defs)
    then show ?thesis by blast
  qed
  have dmg: "adjacentEnemyDamage (s\<lparr>enemies := splice1 i (enemies s)\<rparr>)
           = (adjacentEnemyDamage s)\<lparr>enemies := splice1 i (enemies s)\<rparr>"
    using foldl_damageFrom_remove[OF assms(1) far]
    by (simp add: adjacentEnemyDamage_def Let_def endGame_def)
  have att: "?e \<in> set (enemies (heroAttack s))"
    using foldl_attackSlot_keeps[OF _ far] assms(1) by (simp add: heroAttack_enemies)
  have notadj: "\<not> ((\<bar>x ?e - x (hero s)\<bar> = 1 \<and> \<bar>y ?e - y (hero s)\<bar> = 0)
                  \<or> (\<bar>x ?e - x (hero s)\<bar> = 0 \<and> \<bar>y ?e - y (hero s)\<bar> = 1))"
    by (cases rule: opp) (simp_all add: config_defs)
  have turn: "hero s1 = hero s \<and> \<not> b" if "enemyTurn i us s = Inr (b, us1, s1)" for us b us1 s1
    using that
  proof (cases rule: enemyTurn_cases)
    case hit
    with notadj show ?thesis by blast
  next
    case kill
    with notadj show ?thesis by blast
  qed simp_all
  from turn have turn': "\<forall>us b us1 s1. enemyTurn i us s = Inr (b, us1, s1) \<longrightarrow> hero s1 = hero s \<and> \<not> b"
    by blast
  from wraps dmg att turn' show ?thesis by (intro conjI)
qed

theorem adjacency_does_not_wrap_witness:
  "0 < length (enemies edgeState) \<and> inBounds (hero edgeState)
   \<and> wrapOpposite (hero edgeState) (enemies edgeState ! 0)
   \<and> wrapX (x (hero edgeState) + (-1)) = x (enemies edgeState ! 0)
   \<and> adjacentEnemyDamage edgeState = edgeState
   \<and> enemies edgeState ! 0 \<in> set (enemies (heroAttack edgeState))
   \<and> enemyTurn 0 [0] edgeState = Inr (False, [], edgeState)"
proof -
  have a: "0 < length (enemies edgeState)" "inBounds (hero edgeState)"
    "wrapOpposite (hero edgeState) (enemies edgeState ! 0)"
    by (simp_all add: edgeState_def inBounds_def wrapOpposite_def config_defs)
  have b: "wrapX (x (hero edgeState) + (-1)) = x (enemies edgeState ! 0)"
    by (simp add: edgeState_def wrapX_def config_defs)
  have c: "adjacentEnemyDamage edgeState = edgeState"
    by (simp add: adjacentEnemyDamage_def dirs_def damageFrom_def atTile_def edgeState_def Let_def)
  have d: "enemyTurn 0 [0] edgeState = Inr (False, [], edgeState)"
    by (simp add: enemyTurn_def edgeState_def Let_def randomInt_def moves_def wrapX_def wrapY_def
        config_defs)
  have e: "enemies edgeState ! 0 \<in> set (enemies (heroAttack edgeState))"
    using adjacency_does_not_wrap[OF a] by blast
  from a b c d e show ?thesis by blast
qed

section \<open>The attack loop against its specification\<close>

lemma strike_untouched:
  "\<forall>e \<in> set es. cellOf e \<notin> T \<Longrightarrow> concat (map (strikeIn T a) es) = es"
  by (induction es) (auto simp: strikeIn_def)

lemma filter_none: "\<forall>e \<in> set es. \<not> p e \<Longrightarrow> filter (\<lambda>e. p e \<and> q e) es = []"
  by (induction es) auto

lemma distinct_cells_unique:
  assumes "distinct (map cellOf es)" "i < length es" "j < length es" "cellOf (es ! i) = cellOf (es ! j)"
  shows "i = j"
proof -
  from assms(2,3,4) have "map cellOf es ! i = map cellOf es ! j" by simp
  with assms(1,2,3) show ?thesis by (auto simp: distinct_conv_nth)
qed

lemma atTile_cellOf: "atTile tx ty e \<longleftrightarrow> cellOf e = (tx, ty)"
  by (auto simp: atTile_def cellOf_def)

text \<open>The list around the one enemy that stands on the cell.\<close>

lemma split_at_target:
  assumes d: "distinct (map cellOf es)" and f: "findIndex (\<lambda>e. cellOf e = c) es = Some idx"
  shows "es = take idx es @ es ! idx # drop (Suc idx) es"
    and "\<forall>e \<in> set (take idx es). cellOf e \<noteq> c"
    and "\<forall>e \<in> set (drop (Suc idx) es). cellOf e \<noteq> c"
    and "cellOf (es ! idx) = c" and "idx < length es"
proof -
  from findIndex_Some[OF f] have i: "idx < length es" "cellOf (es ! idx) = c" by simp_all
  show "es = take idx es @ es ! idx # drop (Suc idx) es" using i(1) by (simp add: id_take_nth_drop)
  show "cellOf (es ! idx) = c" "idx < length es" using i by simp_all
  have other: "cellOf (es ! j) \<noteq> c" if "j < length es" "j \<noteq> idx" for j
    using distinct_cells_unique[OF d that(1) i(1)] that(2) i(2) by auto
  show "\<forall>e \<in> set (take idx es). cellOf e \<noteq> c"
  proof
    fix e assume "e \<in> set (take idx es)"
    then obtain j where "j < length (take idx es)" "take idx es ! j = e"
      by (auto simp: in_set_conv_nth)
    then have "j < length es" "j \<noteq> idx" "es ! j = e" using i(1) by simp_all
    with other show "cellOf e \<noteq> c" by blast
  qed
  show "\<forall>e \<in> set (drop (Suc idx) es). cellOf e \<noteq> c"
  proof
    fix e assume "e \<in> set (drop (Suc idx) es)"
    then obtain j where j: "j < length (drop (Suc idx) es)" "drop (Suc idx) es ! j = e"
      by (auto simp: in_set_conv_nth)
    then have "Suc idx + j < length es" "Suc idx + j \<noteq> idx" "es ! (Suc idx + j) = e"
      using i(1) by simp_all
    with other show "cellOf e \<noteq> c" by blast
  qed
qed

lemma attackSlot_is_strike:
  assumes d: "distinct (map cellOf (enemies s))"
  shows "attackSlot s dir = strikeSpec {(x (hero s) + fst dir, y (hero s) + snd dir)} s"
proof -
  let ?c = "(x (hero s) + fst dir, y (hero s) + snd dir)"
  let ?es = "enemies s" and ?a = "attack (hero s)"
  have "atTile (fst ?c) (snd ?c) = (\<lambda>e. cellOf e = ?c)"
    by (rule ext) (simp add: atTile_cellOf)
  then have p: "findIndex (atTile (x (hero s) + fst dir) (y (hero s) + snd dir)) ?es
                  = findIndex (\<lambda>e. cellOf e = ?c) ?es"
    by (rule_tac arg_cong[of _ _ "\<lambda>q. findIndex q ?es"]) simp
  show ?thesis
  proof (cases "findIndex (\<lambda>e. cellOf e = ?c) ?es")
    case None
    then have no: "\<forall>e \<in> set ?es. \<not> cellOf e = ?c" by (simp add: findIndex_None)
    have 1: "concat (map (strikeIn {?c} ?a) ?es) = ?es"
      using no by (intro strike_untouched) simp
    have 2: "filter (\<lambda>e. cellOf e \<in> {?c} \<and> 0 < hp e - ?a) ?es = []"
      "filter (\<lambda>e. cellOf e \<in> {?c} \<and> hp e - ?a \<le> 0) ?es = []"
      using filter_none[OF no] by simp_all
    from None p have "attackSlot s dir = s" by (simp add: attackSlot_def Let_def)
    with 1 2 show ?thesis by (simp add: strikeSpec_def)
  next
    case (Some idx)
    note sp = split_at_target[OF d Some]
    let ?pre = "take idx ?es" and ?post = "drop (Suc idx) ?es" and ?e = "?es ! idx"
    have pre: "concat (map (strikeIn {?c} ?a) ?pre) = ?pre"
      using sp(2) by (intro strike_untouched) simp
    have post: "concat (map (strikeIn {?c} ?a) ?post) = ?post"
      using sp(3) by (intro strike_untouched) simp
    have fpre: "filter (\<lambda>e. cellOf e \<in> {?c} \<and> q e) ?pre = []" for q
      using filter_none[of ?pre "\<lambda>e. cellOf e = ?c" q] sp(2) by simp
    have fpost: "filter (\<lambda>e. cellOf e \<in> {?c} \<and> q e) ?post = []" for q
      using filter_none[of ?post "\<lambda>e. cellOf e = ?c" q] sp(3) by simp
    have whole: "concat (map (strikeIn {?c} ?a) ?es) = ?pre @ strikeIn {?c} ?a ?e @ ?post"
    proof -
      have "concat (map (strikeIn {?c} ?a) ?es)
              = concat (map (strikeIn {?c} ?a) (?pre @ ?e # ?post))"
        using sp(1) by simp
      also have "\<dots> = ?pre @ strikeIn {?c} ?a ?e @ ?post"
        using pre post by simp
      finally show ?thesis .
    qed
    have fwhole: "filter (\<lambda>e. cellOf e \<in> {?c} \<and> q e) ?es = (if q ?e then [?e] else [])" for q
    proof -
      have "filter (\<lambda>e. cellOf e \<in> {?c} \<and> q e) ?es
              = filter (\<lambda>e. cellOf e \<in> {?c} \<and> q e) (?pre @ ?e # ?post)"
        using sp(1) by simp
      also have "\<dots> = (if q ?e then [?e] else [])"
        using fpre[of q] fpost[of q] sp(4) by simp
      finally show ?thesis .
    qed
    show ?thesis
    proof (cases "hp ?e - ?a > 0")
      case True
      have upd: "?es[idx := ?e\<lparr>hp := hp ?e - ?a, justRetaliated := True\<rparr>]
                   = ?pre @ [?e\<lparr>hp := hp ?e - ?a, justRetaliated := True\<rparr>] @ ?post"
        using sp(5) by (simp add: upd_conv_take_nth_drop)
      have "attackSlot s dir
              = s\<lparr>hero := (hero s)\<lparr>hp := hp (hero s) - attack ?e\<rparr>,
                   enemies := ?es[idx := ?e\<lparr>hp := hp ?e - ?a, justRetaliated := True\<rparr>]\<rparr>"
        using Some p True by (simp add: attackSlot_def Let_def)
      moreover have "strikeSpec {?c} s
              = s\<lparr>hero := (hero s)\<lparr>hp := hp (hero s) - attack ?e\<rparr>,
                   enemies := ?pre @ [?e\<lparr>hp := hp ?e - ?a, justRetaliated := True\<rparr>] @ ?post\<rparr>"
        using True whole fwhole[of "\<lambda>e. 0 < hp e - ?a"] fwhole[of "\<lambda>e. hp e - ?a \<le> 0"] sp(4)
        by (simp add: strikeSpec_def strikeIn_def)
      ultimately show ?thesis using upd by simp
    next
      case False
      have "attackSlot s dir = s\<lparr>enemies := splice1 idx ?es, killed := killed s + 1\<rparr>"
        using Some p False by (simp add: attackSlot_def Let_def)
      moreover have "strikeSpec {?c} s = s\<lparr>enemies := ?pre @ ?post, killed := killed s + 1\<rparr>"
        using False whole fwhole[of "\<lambda>e. 0 < hp e - ?a"] fwhole[of "\<lambda>e. hp e - ?a \<le> 0"] sp(4)
        by (simp add: strikeSpec_def strikeIn_def)
      ultimately show ?thesis by (simp add: splice1_def)
    qed
  qed
qed

lemma strikeIn_twice:
  assumes "c \<notin> T"
  shows "concat (map (strikeIn {c} a) (strikeIn T a e)) = strikeIn (insert c T) a e"
  using assms by (auto simp: strikeIn_def cellOf_def)

lemma strike_concat_twice:
  assumes "c \<notin> T"
  shows "concat (map (strikeIn {c} a) (concat (map (strikeIn T a) es)))
           = concat (map (strikeIn (insert c T) a) es)"
  by (induction es) (simp_all add: strikeIn_twice[OF assms])

lemma filter_after_strike:
  assumes "c \<notin> T"
  shows "filter (\<lambda>e. cellOf e \<in> {c} \<and> q e) (concat (map (strikeIn T a) es))
           = filter (\<lambda>e. cellOf e \<in> {c} \<and> q e) es"
  using assms by (induction es) (auto simp: strikeIn_def cellOf_def)

lemma sum_filter_insert:
  fixes f :: "enemy \<Rightarrow> int"
  assumes "c \<notin> T"
  shows "sum_list (map f (filter (\<lambda>e. cellOf e \<in> insert c T \<and> q e) es))
           = sum_list (map f (filter (\<lambda>e. cellOf e \<in> T \<and> q e) es))
             + sum_list (map f (filter (\<lambda>e. cellOf e \<in> {c} \<and> q e) es))"
  using assms by (induction es) (auto simp: algebra_simps)

lemma length_filter_insert:
  assumes "c \<notin> T"
  shows "length (filter (\<lambda>e. cellOf e \<in> insert c T \<and> q e) es)
           = length (filter (\<lambda>e. cellOf e \<in> T \<and> q e) es)
             + length (filter (\<lambda>e. cellOf e \<in> {c} \<and> q e) es)"
  using assms by (induction es) auto

lemma strikeSpec_twice:
  assumes "c \<notin> T"
  shows "strikeSpec {c} (strikeSpec T s) = strikeSpec (insert c T) s"
proof -
  let ?a = "attack (hero s)"
  have a: "attack (hero (strikeSpec T s)) = ?a" by (simp add: strikeSpec_def)
  have e: "enemies (strikeSpec T s) = concat (map (strikeIn T ?a) (enemies s))"
    by (simp add: strikeSpec_def)
  have h: "hp (hero (strikeSpec T s)) = hp (hero s)
             - sum_list (map attack (filter (\<lambda>e. cellOf e \<in> T \<and> hp e - ?a > 0) (enemies s)))"
    by (simp add: strikeSpec_def)
  have k: "killed (strikeSpec T s) = killed s
             + int (length (filter (\<lambda>e. cellOf e \<in> T \<and> hp e - ?a \<le> 0) (enemies s)))"
    by (simp add: strikeSpec_def)
  have rest: "strikeSpec {c} (strikeSpec T s)
     = s\<lparr>hero := (hero s)\<lparr>hp := hp (hero (strikeSpec T s))
                  - sum_list (map attack
                      (filter (\<lambda>e. cellOf e \<in> {c} \<and> hp e - ?a > 0) (enemies (strikeSpec T s))))\<rparr>,
          enemies := concat (map (strikeIn {c} ?a) (enemies (strikeSpec T s))),
          killed := killed (strikeSpec T s)
                  + int (length (filter (\<lambda>e. cellOf e \<in> {c} \<and> hp e - ?a \<le> 0) (enemies (strikeSpec T s))))\<rparr>"
    by (simp add: strikeSpec_def)
  show ?thesis
    unfolding rest e h k
    using strike_concat_twice[OF assms, of ?a "enemies s"]
      filter_after_strike[OF assms, of "\<lambda>e. hp e - ?a > 0" ?a "enemies s"]
      filter_after_strike[OF assms, of "\<lambda>e. hp e - ?a \<le> 0" ?a "enemies s"]
      sum_filter_insert[OF assms, of attack "\<lambda>e. hp e - ?a > 0" "enemies s"]
      length_filter_insert[OF assms, of "\<lambda>e. hp e - ?a \<le> 0" "enemies s"]
    by (simp add: strikeSpec_def)
qed

lemma cells_after_strike: "set (map cellOf (strikeIn T a e)) \<subseteq> {cellOf e}"
  by (auto simp: strikeIn_def cellOf_def)

lemma strike_cells_subset:
  "set (map cellOf (concat (map (strikeIn T a) es))) \<subseteq> set (map cellOf es)"
  by (induction es) (auto simp: strikeIn_def cellOf_def)

lemma strike_distinct:
  "distinct (map cellOf es) \<Longrightarrow> distinct (map cellOf (concat (map (strikeIn T a) es)))"
proof (induction es)
  case Nil
  then show ?case by simp
next
  case (Cons e es)
  have d1: "distinct (map cellOf (strikeIn T a e))"
    by (simp add: strikeIn_def)
  have d2: "distinct (map cellOf (concat (map (strikeIn T a) es)))"
    using Cons by simp
  have "cellOf e \<notin> set (map cellOf es)" using Cons.prems by simp
  then have "cellOf e \<notin> set (map cellOf (concat (map (strikeIn T a) es)))"
    using strike_cells_subset[of T a es] by blast
  then have d3: "set (map cellOf (strikeIn T a e)) \<inter> set (map cellOf (concat (map (strikeIn T a) es))) = {}"
    using cells_after_strike[of T a e] by blast
  from d1 d2 d3 show ?case by simp
qed

lemma strikeSpec_distinct:
  "distinct (map cellOf (enemies s)) \<Longrightarrow> distinct (map cellOf (enemies (strikeSpec T s)))"
  by (simp add: strikeSpec_def strike_distinct)

lemma attackSlot_after_strike:
  assumes "distinct (map cellOf (enemies s))"
    and "(x (hero s) + fst d, y (hero s) + snd d) \<notin> T"
  shows "attackSlot (strikeSpec T s) d = strikeSpec (insert (x (hero s) + fst d, y (hero s) + snd d) T) s"
proof -
  have pos: "x (hero (strikeSpec T s)) = x (hero s)" "y (hero (strikeSpec T s)) = y (hero s)"
    by (simp_all add: strikeSpec_def)
  from attackSlot_is_strike[OF strikeSpec_distinct[OF assms(1)], of T d]
  have "attackSlot (strikeSpec T s) d
          = strikeSpec {(x (hero s) + fst d, y (hero s) + snd d)} (strikeSpec T s)"
    by (simp add: pos)
  with strikeSpec_twice[OF assms(2)] show ?thesis by simp
qed

lemma attack_loop_is_spec:
  assumes d: "distinct (map cellOf (enemies s))"
  shows "foldl attackSlot s dirs = attackSpec s"
proof -
  let ?hx = "x (hero s)" and ?hy = "y (hero s)"
  have 1: "attackSlot s (-1, 0) = strikeSpec {(?hx - 1, ?hy)} s"
    using attackSlot_is_strike[OF d, of "(-1, 0)"] by simp
  have 2: "attackSlot (strikeSpec {(?hx - 1, ?hy)} s) (1, 0)
             = strikeSpec {(?hx + 1, ?hy), (?hx - 1, ?hy)} s"
    using attackSlot_after_strike[OF d, of "(1, 0)" "{(?hx - 1, ?hy)}"] by simp
  have 3: "attackSlot (strikeSpec {(?hx + 1, ?hy), (?hx - 1, ?hy)} s) (0, -1)
             = strikeSpec {(?hx, ?hy - 1), (?hx + 1, ?hy), (?hx - 1, ?hy)} s"
    using attackSlot_after_strike[OF d, of "(0, -1)" "{(?hx + 1, ?hy), (?hx - 1, ?hy)}"] by simp
  have 4: "attackSlot (strikeSpec {(?hx, ?hy - 1), (?hx + 1, ?hy), (?hx - 1, ?hy)} s) (0, 1)
             = strikeSpec {(?hx, ?hy + 1), (?hx, ?hy - 1), (?hx + 1, ?hy), (?hx - 1, ?hy)} s"
    using attackSlot_after_strike[OF d, of "(0, 1)" "{(?hx, ?hy - 1), (?hx + 1, ?hy), (?hx - 1, ?hy)}"]
    by simp
  have set: "{(?hx, ?hy + 1), (?hx, ?hy - 1), (?hx + 1, ?hy), (?hx - 1, ?hy)} = neighbourCells (hero s)"
    by (auto simp: neighbourCells_def)
  show ?thesis
    by (simp add: dirs_def 1 2 3 4 set attackSpec_def)
qed

section \<open>C7: resolution of the hero's attack\<close>

text \<open>
  C7. In a state whose enemies stand on distinct cells, the four slots of \<open>heroAttack\<close>
  together do what the specification says (\<open>attackSpec\<close>): every enemy on one of the four
  orthogonal neighbour cells loses \<open>hero.attack\<close> hit points; each that keeps hit points
  above 0 takes its attack off the hero's hit points once and is flagged; each that does
  not is removed from the list and counted in \<open>killed\<close>, and takes nothing off the hero.
  No slot is skipped. Afterwards the game is won when no enemy is left or \<open>killed\<close> has
  reached \<open>ENEMY_COUNT\<close>, and only otherwise lost when the hero's hit points are at most 0.
\<close>

theorem heroAttack_resolution:
  assumes "distinct (map cellOf (enemies s))"
  shows "foldl attackSlot s dirs = attackSpec s
       \<and> heroAttack s =
           (if enemies (attackSpec s) = [] \<or> killed (attackSpec s) \<ge> ENEMY_COUNT
            then win (attackSpec s)
            else if hp (hero (attackSpec s)) \<le> 0 then endGame (attackSpec s)
            else attackSpec s)"
  using attack_loop_is_spec[OF assms] by (simp add: heroAttack_def Let_def)

theorem heroAttack_resolution_witness:
  "distinct (map cellOf (enemies meleeState))
   \<and> heroAttack meleeState =
       meleeState\<lparr>hero := \<lparr>x = 6, y = 1, hp = 9, maxHp = 10, attack = 1\<rparr>,
         enemies := [\<lparr>x = 7, y = 1, hp = 4, maxHp = 5, attack = 1, justRetaliated = True\<rparr>,
                     \<lparr>x = 20, y = 1, hp = 5, maxHp = 5, attack = 1, justRetaliated = False\<rparr>],
         killed := 8\<rparr>"
proof -
  have d: "distinct (map cellOf (enemies meleeState))"
    by (simp add: meleeState_def cellOf_def)
  have a: "attackSpec meleeState =
       meleeState\<lparr>hero := \<lparr>x = 6, y = 1, hp = 9, maxHp = 10, attack = 1\<rparr>,
         enemies := [\<lparr>x = 7, y = 1, hp = 4, maxHp = 5, attack = 1, justRetaliated = True\<rparr>,
                     \<lparr>x = 20, y = 1, hp = 5, maxHp = 5, attack = 1, justRetaliated = False\<rparr>],
         killed := 8\<rparr>"
    by (simp add: attackSpec_def strikeSpec_def strikeIn_def neighbourCells_def cellOf_def
        meleeState_def)
  have b: "enemies (attackSpec meleeState) \<noteq> []" "killed (attackSpec meleeState) = 8"
    "hp (hero (attackSpec meleeState)) = 9"
    unfolding a by (simp_all add: meleeState_def)
  from heroAttack_resolution[OF d] have "heroAttack meleeState = attackSpec meleeState"
    using b by (simp add: ENEMY_COUNT_def)
  with d a show ?thesis by simp
qed

section \<open>C5: no second attack after a retaliation\<close>

lemma struck_neighbour_flagged:
  assumes "e \<in> set (concat (map (strikeIn T a) es))" "cellOf e \<in> T"
  shows "justRetaliated e"
  using assms by (auto simp: strikeIn_def cellOf_def split: if_splits)

lemma survivor_in_struck:
  assumes "e \<in> set es" "cellOf e \<in> T" "hp e - a > 0"
  shows "e\<lparr>hp := hp e - a, justRetaliated := True\<rparr> \<in> set (concat (map (strikeIn T a) es))"
  using assms by (auto simp: strikeIn_def)

lemma adjacent_iff_neighbour:
  "(\<bar>x e - x h\<bar> = 1 \<and> \<bar>y e - y h\<bar> = 0) \<or> (\<bar>x e - x h\<bar> = 0 \<and> \<bar>y e - y h\<bar> = 1)
     \<longleftrightarrow> cellOf e \<in> neighbourCells h"
  by (auto simp: cellOf_def neighbourCells_def)

text \<open>
  A sweep over a state in which every enemy next to the hero is flagged: nobody attacks,
  the sweep runs to its end, and every flagged enemy ends where it stood with its flag
  cleared.
\<close>

lemma sweep_all_flagged:
  assumes "\<forall>k. i \<le> k \<and> k < length (enemies t) \<and> cellOf (enemies t ! k) \<in> neighbourCells (hero t)
              \<longrightarrow> justRetaliated (enemies t ! k)"
    and "updateEnemiesFrom i us t = Inr t2"
  shows "hero t2 = hero t \<and> gameOver t2 = gameOver t \<and> winFlag t2 = winFlag t
       \<and> length (enemies t2) = length (enemies t)
       \<and> (\<forall>k < i. enemies t2 ! k = enemies t ! k)
       \<and> (\<forall>k. i \<le> k \<and> k < length (enemies t) \<and> justRetaliated (enemies t ! k)
              \<longrightarrow> enemies t2 ! k = (enemies t ! k)\<lparr>justRetaliated := False\<rparr>)"
  using assms
proof (induction i us t rule: updateEnemiesFrom.induct)
  case (1 i us t)
  show ?case
  proof (cases "i < length (enemies t)")
    case False
    with "1.prems"(2) show ?thesis by auto
  next
    case True
    from True "1.prems"(2) obtain b us1 t1 where turn: "enemyTurn i us t = Inr (b, us1, t1)"
      by (auto split: sum.splits)
    have flagged_if_adj: "cellOf (enemies t ! i) \<in> neighbourCells (hero t) \<Longrightarrow> justRetaliated (enemies t ! i)"
      using "1.prems"(1) True by simp
    have step: "\<not> b \<and> hero t1 = hero t \<and> gameOver t1 = gameOver t \<and> winFlag t1 = winFlag t
                \<and> length (enemies t1) = length (enemies t)
                \<and> (\<forall>k. k \<noteq> i \<longrightarrow> enemies t1 ! k = enemies t ! k)
                \<and> (justRetaliated (enemies t ! i)
                     \<longrightarrow> enemies t1 ! i = (enemies t ! i)\<lparr>justRetaliated := False\<rparr>)"
      using turn
    proof (cases rule: enemyTurn_cases)
      case skip
      with True show ?thesis by simp
    next
      case hit
      with flagged_if_adj adjacent_iff_neighbour[of "enemies t ! i" "hero t"] show ?thesis by blast
    next
      case kill
      with flagged_if_adj adjacent_iff_neighbour[of "enemies t ! i" "hero t"] show ?thesis by blast
    next
      case (stay u)
      then show ?thesis by simp
    next
      case (move u mv)
      then show ?thesis by simp
    qed
    from step have nb: "\<not> b" and h1: "hero t1 = hero t" and g1: "gameOver t1 = gameOver t"
      and w1: "winFlag t1 = winFlag t" and l1: "length (enemies t1) = length (enemies t)"
      and same: "\<And>k. k \<noteq> i \<Longrightarrow> enemies t1 ! k = enemies t ! k"
      and own: "justRetaliated (enemies t ! i) \<Longrightarrow> enemies t1 ! i = (enemies t ! i)\<lparr>justRetaliated := False\<rparr>"
      by blast+
    from turn True nb "1.prems"(2) have rest: "updateEnemiesFrom (i + 1) us1 t1 = Inr t2" by simp
    have pre: "\<forall>k. i + 1 \<le> k \<and> k < length (enemies t1) \<and> cellOf (enemies t1 ! k) \<in> neighbourCells (hero t1)
              \<longrightarrow> justRetaliated (enemies t1 ! k)"
    proof (intro allI impI)
      fix k
      assume k: "i + 1 \<le> k \<and> k < length (enemies t1) \<and> cellOf (enemies t1 ! k) \<in> neighbourCells (hero t1)"
      then have "k \<noteq> i" by simp
      with same have "enemies t1 ! k = enemies t ! k" by simp
      with k h1 l1 "1.prems"(1) show "justRetaliated (enemies t1 ! k)" by simp
    qed
    note ih = "1.IH"[OF True turn refl refl nb pre rest]
    from ih have ih1: "hero t2 = hero t1" "gameOver t2 = gameOver t1" "winFlag t2 = winFlag t1"
      "length (enemies t2) = length (enemies t1)"
      and ih2: "\<And>k. k < i + 1 \<Longrightarrow> enemies t2 ! k = enemies t1 ! k"
      and ih3: "\<And>k. i + 1 \<le> k \<Longrightarrow> k < length (enemies t1) \<Longrightarrow> justRetaliated (enemies t1 ! k)
                  \<Longrightarrow> enemies t2 ! k = (enemies t1 ! k)\<lparr>justRetaliated := False\<rparr>"
      by blast+
    have a: "hero t2 = hero t \<and> gameOver t2 = gameOver t \<and> winFlag t2 = winFlag t
             \<and> length (enemies t2) = length (enemies t)"
      using ih1 h1 g1 w1 l1 by simp
    have b: "enemies t2 ! k = enemies t ! k" if "k < i" for k
      using ih2[of k] same[of k] that by simp
    have c: "enemies t2 ! k = (enemies t ! k)\<lparr>justRetaliated := False\<rparr>"
      if "i \<le> k" "k < length (enemies t)" "justRetaliated (enemies t ! k)" for k
    proof (cases "k = i")
      case True
      with ih2[of i] own that show ?thesis by simp
    next
      case False
      with that have "i + 1 \<le> k" by simp
      with ih3[of k] same[OF False] that l1 show ?thesis by simp
    qed
    from a b c show ?thesis by blast
  qed
qed

text \<open>
  C5. Take an Attack (the space key) in a state that is not over and whose enemies stand on
  distinct cells, and an enemy \<open>e\<close> that retaliates in it: it stands on a neighbour cell
  of the hero and survives the blow. Then \<open>heroAttack\<close> leaves it in the list with its
  flag set, the enemy sweep of the same action leaves the hero exactly as \<open>heroAttack\<close>
  left him (no attack at all), and after the sweep the enemy is at the same index, on the
  same cell, with the same hit points and its flag cleared: its turn was skipped.
\<close>

theorem retaliation_no_double_attack:
  assumes "distinct (map cellOf (enemies s))"
    and "\<not> gameOver s"
    and "handleInput '' '' us s = Inr s2"
    and "e \<in> set (enemies s)"
    and "cellOf e \<in> neighbourCells (hero s)"
    and "hp e - attack (hero s) > 0"
  shows "hero s2 = hero (heroAttack s)
       \<and> (\<exists>k < length (enemies s2).
             enemies (heroAttack s) ! k = e\<lparr>hp := hp e - attack (hero s), justRetaliated := True\<rparr>
           \<and> enemies s2 ! k = e\<lparr>hp := hp e - attack (hero s), justRetaliated := False\<rparr>)"
proof -
  let ?s1 = "heroAttack s" and ?a = "attack (hero s)"
  have en: "enemies ?s1 = concat (map (strikeIn (neighbourCells (hero s)) ?a) (enemies s))"
    using attack_loop_is_spec[OF assms(1)]
    by (simp add: heroAttack_enemies attackSpec_def strikeSpec_def)
  have pos: "neighbourCells (hero ?s1) = neighbourCells (hero s)"
    by (simp add: heroAttack_def Let_def win_def endGame_def foldl_attackSlot_frame neighbourCells_def)
  have flagged: "\<forall>k. 0 \<le> k \<and> k < length (enemies ?s1) \<and> cellOf (enemies ?s1 ! k) \<in> neighbourCells (hero ?s1)
              \<longrightarrow> justRetaliated (enemies ?s1 ! k)"
    using struck_neighbour_flagged[of _ "neighbourCells (hero s)" ?a "enemies s"]
    unfolding pos en by (metis nth_mem)
  have key: "keyMap '' '' = None" by (simp add: keyMap_def)
  from assms(2,3) key have sweep: "updateEnemiesFrom 0 us ?s1 = Inr s2"
    by (simp add: handleInput_def updateEnemies_def)
  note sw = sweep_all_flagged[OF flagged sweep]
  let ?e1 = "e\<lparr>hp := hp e - ?a, justRetaliated := True\<rparr>"
  from survivor_in_struck[OF assms(4,5,6)] en have "?e1 \<in> set (enemies ?s1)" by simp
  then obtain k where k: "k < length (enemies ?s1)" "enemies ?s1 ! k = ?e1"
    by (auto simp: in_set_conv_nth)
  from sw k have "enemies s2 ! k = ?e1\<lparr>justRetaliated := False\<rparr>" by simp
  then have "enemies s2 ! k = e\<lparr>hp := hp e - ?a, justRetaliated := False\<rparr>" by simp
  with k sw show ?thesis by auto
qed

theorem retaliation_no_double_attack_witness:
  "distinct (map cellOf (enemies meleeState)) \<and> \<not> gameOver meleeState
   \<and> handleInput '' '' [0] meleeState =
       Inr (meleeState\<lparr>hero := \<lparr>x = 6, y = 1, hp = 9, maxHp = 10, attack = 1\<rparr>,
         enemies := [\<lparr>x = 7, y = 1, hp = 4, maxHp = 5, attack = 1, justRetaliated = False\<rparr>,
                     \<lparr>x = 20, y = 1, hp = 5, maxHp = 5, attack = 1, justRetaliated = False\<rparr>],
         killed := 8\<rparr>)
   \<and> enemies meleeState ! 1 \<in> set (enemies meleeState)
   \<and> cellOf (enemies meleeState ! 1) \<in> neighbourCells (hero meleeState)
   \<and> hp (enemies meleeState ! 1) - attack (hero meleeState) > 0
   \<and> hp (hero (heroAttack meleeState)) = 9"
proof -
  let ?s2 = "meleeState\<lparr>hero := \<lparr>x = 6, y = 1, hp = 9, maxHp = 10, attack = 1\<rparr>,
         enemies := [\<lparr>x = 7, y = 1, hp = 4, maxHp = 5, attack = 1, justRetaliated = False\<rparr>,
                     \<lparr>x = 20, y = 1, hp = 5, maxHp = 5, attack = 1, justRetaliated = False\<rparr>],
         killed := 8\<rparr>"
  have d: "distinct (map cellOf (enemies meleeState))" "\<not> gameOver meleeState"
    by (simp_all add: meleeState_def cellOf_def)
  have ha: "heroAttack meleeState =
       meleeState\<lparr>hero := \<lparr>x = 6, y = 1, hp = 9, maxHp = 10, attack = 1\<rparr>,
         enemies := [\<lparr>x = 7, y = 1, hp = 4, maxHp = 5, attack = 1, justRetaliated = True\<rparr>,
                     \<lparr>x = 20, y = 1, hp = 5, maxHp = 5, attack = 1, justRetaliated = False\<rparr>],
         killed := 8\<rparr>"
    by (simp add: heroAttack_def dirs_def attackSlot_def atTile_def splice1_def Let_def
        meleeState_def ENEMY_COUNT_def)
  have h: "handleInput '' '' [0] meleeState = Inr ?s2"
    unfolding handleInput_def updateEnemies_def ha
    by (simp add: keyMap_def meleeState_def enemyTurn_def Let_def randomInt_def moves_def
        wrapX_def wrapY_def config_defs)
  have e: "enemies meleeState ! 1 \<in> set (enemies meleeState)"
    "cellOf (enemies meleeState ! 1) \<in> neighbourCells (hero meleeState)"
    "hp (enemies meleeState ! 1) - attack (hero meleeState) > 0"
    by (simp_all add: meleeState_def cellOf_def neighbourCells_def)
  from retaliation_no_double_attack[OF d h e] have "hero (heroAttack meleeState) = hero ?s2"
    by simp
  then have "hp (hero (heroAttack meleeState)) = hp (hero ?s2)" by (rule arg_cong)
  then have "hp (hero (heroAttack meleeState)) = 9" by simp
  with d h e show ?thesis by simp
qed

section \<open>Counting the tiles that placeItems writes\<close>

lemma count_row_update:
  "i < length r \<Longrightarrow>
     int (length (filter p (r[i := v])))
       = int (length (filter p r)) - (if p (r ! i) then 1 else 0) + (if p v then 1 else 0)"
proof (induction r arbitrary: i)
  case Nil
  then show ?case by simp
next
  case (Cons c r)
  show ?case
  proof (cases i)
    case 0
    then show ?thesis by simp
  next
    case (Suc j)
    with Cons.prems have "j < length r" by simp
    from Cons.IH[OF this] Suc show ?thesis by (auto split: if_splits)
  qed
qed

lemma count_grid_update:
  "i < length m \<Longrightarrow>
     int (length (filter p (concat (m[i := r]))))
       = int (length (filter p (concat m))) - int (length (filter p (m ! i))) + int (length (filter p r))"
proof (induction m arbitrary: i)
  case Nil
  then show ?case by simp
next
  case (Cons c m)
  show ?case
  proof (cases i)
    case 0
    then show ?thesis by simp
  next
    case (Suc j)
    with Cons.prems have "j < length m" by simp
    from Cons.IH[OF this] Suc show ?thesis by simp
  qed
qed

lemma countTile_write:
  assumes "writeTile m cx cy t = Inr m1"
  shows "countTile t' m1 = countTile t' m
           - (if m ! nat cy ! nat cx = t' then 1 else 0) + (if t = t' then 1 else 0)"
proof -
  from assms have g: "inGrid m cx cy" and m1: "m1 = m[nat cy := (m ! nat cy)[nat cx := t]]"
    by (auto simp: writeTile_def split: if_splits)
  from g have i: "nat cy < length m" and j: "nat cx < length (m ! nat cy)"
    by (auto simp: inGrid_def)
  show ?thesis
    unfolding countTile_def m1
    using count_grid_update[OF i, of "\<lambda>c. c = t'" "(m ! nat cy)[nat cx := t]"]
      count_row_update[OF j, of "\<lambda>c. c = t'" t]
    by simp
qed

declare placeTiles.simps [simp del]

lemma placeTiles_counts:
  assumes "placeTiles t limit placed us s = Inr (s1, us1)" "t \<noteq> TILE_EMPTY" "placed \<le> limit"
  shows "countTile t (mapTiles s1) = countTile t (mapTiles s) + (limit - placed)
       \<and> (\<forall>t'. t' \<noteq> t \<and> t' \<noteq> TILE_EMPTY \<longrightarrow> countTile t' (mapTiles s1) = countTile t' (mapTiles s))
       \<and> hero s1 = hero s"
  using assms
proof (induction t limit placed us s rule: placeTiles.induct)
  case (1 t limit placed us s)
  show ?case
  proof (cases "placed < limit")
    case False
    with "1.prems" show ?thesis by (simp add: placeTiles.simps[of t limit placed us s])
  next
    case True
    note run = "1.prems"(1)[unfolded placeTiles.simps[of t limit placed us s]]
    from True run obtain ux uy us2 where us: "us = ux # uy # us2"
      by (auto split: list.splits)
    let ?cx = "randomInt 0 (MAP_WIDTH - 1) ux" and ?cy = "randomInt 0 (MAP_HEIGHT - 1) uy"
    from True run us obtain t0 where t0: "readTile (mapTiles s) ?cx ?cy = Inr t0"
      by (auto simp: Let_def split: sum.splits)
    show ?thesis
    proof (cases "t0 = TILE_EMPTY \<and> \<not> (?cx = x (hero s) \<and> ?cy = y (hero s))")
      case False
      with True us t0 run have "placeTiles t limit placed us2 s = Inr (s1, us1)"
        by (auto simp: Let_def)
      from "1.IH"(2)[OF True us refl refl refl t0 False this "1.prems"(2,3)] show ?thesis .
    next
      case ok: True
      from True us t0 ok run obtain m where
        m: "writeTile (mapTiles s) ?cx ?cy t = Inr m"
        by (auto simp: Let_def split: sum.splits)
      with True us t0 ok run have
        rec: "placeTiles t limit (placed + 1) us2 (s\<lparr>mapTiles := m\<rparr>) = Inr (s1, us1)"
        by (simp add: Let_def)
      from True have le: "placed + 1 \<le> limit" by simp
      note ih = "1.IH"(1)[OF True us refl refl refl t0 ok m rec "1.prems"(2) le]
      from t0 ok have cell: "mapTiles s ! nat ?cy ! nat ?cx = TILE_EMPTY"
        by (auto simp: readTile_def split: if_splits)
      have w: "countTile t' m = countTile t' (mapTiles s)
                 - (if TILE_EMPTY = t' then 1 else 0) + (if t = t' then 1 else 0)" for t'
        using countTile_write[OF m, of t'] cell by simp
      from ih w[of t] "1.prems"(2) have a: "countTile t (mapTiles s1) = countTile t (mapTiles s) + (limit - placed)"
        by simp
      have b: "countTile t' (mapTiles s1) = countTile t' (mapTiles s)" if "t' \<noteq> t" "t' \<noteq> TILE_EMPTY" for t'
        using ih w[of t'] that by auto
      from ih have c: "hero s1 = hero s" by simp
      from a b c show ?thesis by blast
    qed
  qed
qed

lemma placeItems_counts:
  assumes "placeItems us s = Inr (s1, us1)"
  shows "countTile TILE_SWORD (mapTiles s1) = countTile TILE_SWORD (mapTiles s) + 2
       \<and> countTile TILE_POTION (mapTiles s1) = countTile TILE_POTION (mapTiles s) + 10"
proof -
  from assms obtain s0 us0 where
    a: "placeTiles TILE_SWORD 2 0 us s = Inr (s0, us0)" and
    b: "placeTiles TILE_POTION 10 0 us0 s0 = Inr (s1, us1)"
    by (auto simp: placeItems_def split: sum.splits)
  from placeTiles_counts[OF a] placeTiles_counts[OF b] show ?thesis by simp
qed

lemma countTile_corridorGrid:
  "countTile TILE_SWORD corridorGrid = 0" "countTile TILE_POTION corridorGrid = 0"
proof -
  have "set (concat corridorGrid) \<subseteq> {TILE_WALL, TILE_EMPTY}"
    by (auto simp: corridorGrid_def dest!: set_update_subset_insert[THEN subsetD])
  then have "\<forall>c \<in> set (concat corridorGrid). c \<noteq> TILE_SWORD \<and> c \<noteq> TILE_POTION" by auto
  then show "countTile TILE_SWORD corridorGrid = 0" "countTile TILE_POTION corridorGrid = 0"
    by (auto simp: countTile_def filter_empty_conv)
qed

section \<open>C2: the enemy sweep after a terminal transition\<close>

text \<open>What holds of the claim: once the game is over, \<open>handleInput\<close> changes nothing.\<close>

lemma handleInput_when_over: "gameOver s \<Longrightarrow> handleInput key us s = Inr s"
  by (simp add: handleInput_def)

text \<open>
  C2, at a failing input. In \<open>duelState\<close> the key \<open>d\<close> moves the hero next to the second
  enemy; the adjacency damage takes his last hit point and \<open>attemptMove\<close> ends the game
  (Lost). \<open>handleInput\<close> then still runs \<open>updateEnemies\<close>: the first enemy steps from
  \<open>(20, 1)\<close> to \<open>(21, 1)\<close> after the game was lost.
\<close>

theorem sweep_runs_after_defeat:
  "phase_of duelState = Playing
   \<and> attemptMove 1 0 duelState =
       Inr (duelState\<lparr>hero := \<lparr>x = 6, y = 1, hp = 0, maxHp = 10, attack = 1\<rparr>,
              gameOver := True, winFlag := False\<rparr>)
   \<and> phase_of (duelState\<lparr>hero := \<lparr>x = 6, y = 1, hp = 0, maxHp = 10, attack = 1\<rparr>,
              gameOver := True, winFlag := False\<rparr>) = Lost
   \<and> handleInput ''d'' [2 / 5] duelState =
       Inr (duelState\<lparr>hero := \<lparr>x = 6, y = 1, hp = 0, maxHp = 10, attack = 1\<rparr>,
              enemies := [\<lparr>x = 21, y = 1, hp = 5, maxHp = 5, attack = 1, justRetaliated = False\<rparr>,
                          \<lparr>x = 7, y = 1, hp = 5, maxHp = 5, attack = 1, justRetaliated = False\<rparr>],
              gameOver := True, winFlag := False\<rparr>)"
proof -
  have a: "attemptMove 1 0 duelState =
       Inr (duelState\<lparr>hero := \<lparr>x = 6, y = 1, hp = 0, maxHp = 10, attack = 1\<rparr>,
              gameOver := True, winFlag := False\<rparr>)"
    by (simp add: attemptMove_def duelState_def Let_def wrapX_def wrapY_def readTile_def inGrid_def
        corridorGrid_def config_defs atTile_def checkPickup_def adjacentEnemyDamage_def
        dirs_def damageFrom_def endGame_def)
  have k: "keyMap ''d'' = Some (1, 0)" by (simp add: keyMap_def)
  have b: "updateEnemies [2 / 5]
             (duelState\<lparr>hero := \<lparr>x = 6, y = 1, hp = 0, maxHp = 10, attack = 1\<rparr>,
                gameOver := True, winFlag := False\<rparr>) =
       Inr (duelState\<lparr>hero := \<lparr>x = 6, y = 1, hp = 0, maxHp = 10, attack = 1\<rparr>,
              enemies := [\<lparr>x = 21, y = 1, hp = 5, maxHp = 5, attack = 1, justRetaliated = False\<rparr>,
                          \<lparr>x = 7, y = 1, hp = 5, maxHp = 5, attack = 1, justRetaliated = False\<rparr>],
              gameOver := True, winFlag := False\<rparr>)"
    by (simp add: updateEnemies_def enemyTurn_def duelState_def Let_def randomInt_def moves_def
        wrapX_def wrapY_def readTile_def inGrid_def corridorGrid_def config_defs otherEnemyAt_def
        atTile_def endGame_def)
  have c: "handleInput ''d'' [2 / 5] duelState =
       Inr (duelState\<lparr>hero := \<lparr>x = 6, y = 1, hp = 0, maxHp = 10, attack = 1\<rparr>,
              enemies := [\<lparr>x = 21, y = 1, hp = 5, maxHp = 5, attack = 1, justRetaliated = False\<rparr>,
                          \<lparr>x = 7, y = 1, hp = 5, maxHp = 5, attack = 1, justRetaliated = False\<rparr>],
              gameOver := True, winFlag := False\<rparr>)"
  proof -
    have ng: "\<not> gameOver duelState" by (simp add: duelState_def)
    show ?thesis using ng b by (simp add: handleInput_def k a)
  qed
  have p: "phase_of duelState = Playing"
    "phase_of (duelState\<lparr>hero := \<lparr>x = 6, y = 1, hp = 0, maxHp = 10, attack = 1\<rparr>,
              gameOver := True, winFlag := False\<rparr>) = Lost"
    by (simp_all add: phase_of_def duelState_def)
  from a c p show ?thesis by simp
qed

section \<open>C10: rooms keep a wall margin\<close>

lemma randomInt_range:
  assumes "unitDraw u" "lo \<le> hi"
  shows "lo \<le> randomInt lo hi u \<and> randomInt lo hi u \<le> hi"
proof -
  let ?n = "hi - lo + 1"
  from assms(2) have n: "(0::rat) < of_int ?n" by simp
  from assms(1) have "0 \<le> u * of_int ?n" using n by (simp add: unitDraw_def)
  then have lo: "0 \<le> \<lfloor>u * of_int ?n\<rfloor>" by simp
  from assms(1) n have "u * of_int ?n < of_int ?n" by (simp add: unitDraw_def)
  then have "\<lfloor>u * of_int ?n\<rfloor> < ?n" by (simp only: floor_less_iff)
  with lo show ?thesis by (simp add: randomInt_def)
qed

lemma writeTile_other:
  assumes "writeTile m a b t = Inr m1" "(cx, cy) \<noteq> (a, b)"
  shows "readTile m1 cx cy = readTile m cx cy"
proof -
  from assms(1) have g: "inGrid m a b" and m1: "m1 = m[nat b := (m ! nat b)[nat a := t]]"
    by (auto simp: writeTile_def split: if_splits)
  have same_grid: "inGrid m1 cx cy = inGrid m cx cy"
    unfolding m1 inGrid_def by (cases "nat cy = nat b") (auto simp: nth_list_update)
  show ?thesis
  proof (cases "inGrid m cx cy")
    case False
    with same_grid show ?thesis by (simp add: readTile_def)
  next
    case True
    then have "m1 ! nat cy ! nat cx = m ! nat cy ! nat cx"
      unfolding m1 using assms(2) g
      by (cases "nat cy = nat b") (auto simp: inGrid_def nth_list_update)
    with True same_grid show ?thesis by (simp add: readTile_def)
  qed
qed

lemma carve_other:
  "carve m cs = Inr m1 \<Longrightarrow> (cx, cy) \<notin> set cs \<Longrightarrow> readTile m1 cx cy = readTile m cx cy"
proof (induction cs arbitrary: m)
  case Nil
  then show ?case by simp
next
  case (Cons c cs)
  from Cons.prems(1) obtain m0 where w: "writeTile m (fst c) (snd c) TILE_EMPTY = Inr m0"
    and r: "carve m0 cs = Inr m1"
    by (auto split: sum.splits)
  from Cons.prems(2) have "(cx, cy) \<noteq> (fst c, snd c)" "(cx, cy) \<notin> set cs" by auto
  with writeTile_other[OF w] Cons.IH[OF r] show ?case by simp
qed

lemma roomCells_iff:
  "(cx, cy) \<in> set (roomCells r) \<longleftrightarrow>
     room_x r \<le> cx \<and> cx \<le> room_x r + room_w r - 1 \<and> room_y r \<le> cy \<and> cy \<le> room_y r + room_h r - 1"
proof -
  have "(cx, cy) \<in> set (roomCells r) \<longleftrightarrow>
          cy \<in> {room_y r .. room_y r + room_h r - 1} \<and> cx \<in> {room_x r .. room_x r + room_w r - 1}"
    unfolding roomCells_def by (auto simp: image_iff)
  then show ?thesis by auto
qed

lemma drawn_room_inside:
  assumes "unitDraw uw" "unitDraw uh" "unitDraw ux" "unitDraw uy"
    and "w = randomInt ROOM_MIN ROOM_MAX uw" "h = randomInt ROOM_MIN ROOM_MAX uh"
    and "r = \<lparr>room_x = randomInt 1 (MAP_WIDTH - w - 2) ux, room_y = randomInt 1 (MAP_HEIGHT - h - 2) uy,
              room_w = w, room_h = h\<rparr>"
  shows "\<forall>c \<in> set (roomCells r). interior c"
proof -
  from randomInt_range[OF assms(1), of ROOM_MIN ROOM_MAX] assms(5)
  have w: "3 \<le> w" "w \<le> 8" by (simp_all add: config_defs)
  from randomInt_range[OF assms(2), of ROOM_MIN ROOM_MAX] assms(6)
  have h: "3 \<le> h" "h \<le> 8" by (simp_all add: config_defs)
  from randomInt_range[OF assms(3), of 1 "MAP_WIDTH - w - 2"] w
  have rx: "1 \<le> room_x r" "room_x r \<le> MAP_WIDTH - w - 2"
    unfolding assms(7) by (simp_all add: config_defs)
  from randomInt_range[OF assms(4), of 1 "MAP_HEIGHT - h - 2"] h
  have ry: "1 \<le> room_y r" "room_y r \<le> MAP_HEIGHT - h - 2"
    unfolding assms(7) by (simp_all add: config_defs)
  have wh: "room_w r = w" "room_h r = h" unfolding assms(7) by simp_all
  show ?thesis
  proof
    fix c assume c: "c \<in> set (roomCells r)"
    obtain cx cy where cc: "c = (cx, cy)" by (cases c) auto
    from c cc roomCells_iff[of cx cy r] rx ry wh show "interior c"
      by (simp add: interior_def)
  qed
qed

lemma placeRoomsLoop_inside:
  assumes "placeRoomsLoop n us s = Inr (s1, us1)" "list_all unitDraw us"
    and "\<forall>r \<in> set (rooms s). \<forall>c \<in> set (roomCells r). interior c"
  shows "(\<forall>r \<in> set (rooms s1). \<forall>c \<in> set (roomCells r). interior c)
       \<and> (\<forall>cx cy. readTile (mapTiles s1) cx cy \<noteq> readTile (mapTiles s) cx cy \<longrightarrow> interior (cx, cy))"
  using assms
proof (induction n arbitrary: us s)
  case 0
  then show ?case by simp
next
  case (Suc n)
  from Suc.prems(1) obtain uw uh ux uy us2 where us: "us = uw # uh # ux # uy # us2"
    by (auto split: list.splits)
  let ?w = "randomInt ROOM_MIN ROOM_MAX uw" and ?h = "randomInt ROOM_MIN ROOM_MAX uh"
  let ?r = "\<lparr>room_x = randomInt 1 (MAP_WIDTH - ?w - 2) ux, room_y = randomInt 1 (MAP_HEIGHT - ?h - 2) uy,
              room_w = ?w, room_h = ?h\<rparr>"
  from Suc.prems(1) us obtain m where m: "carve (mapTiles s) (roomCells ?r) = Inr m"
    and rest: "placeRoomsLoop n us2 (s\<lparr>rooms := rooms s @ [?r], mapTiles := m\<rparr>) = Inr (s1, us1)"
    by (auto simp: Let_def split: sum.splits)
  from Suc.prems(2) us have ud: "unitDraw uw" "unitDraw uh" "unitDraw ux" "unitDraw uy"
    "list_all unitDraw us2" by simp_all
  have ins: "\<forall>c \<in> set (roomCells ?r). interior c"
    using drawn_room_inside[OF ud(1-4) refl refl refl] .
  have pre: "\<forall>r \<in> set (rooms (s\<lparr>rooms := rooms s @ [?r], mapTiles := m\<rparr>)). \<forall>c \<in> set (roomCells r). interior c"
    using Suc.prems(3) ins by auto
  note ih = Suc.IH[OF rest ud(5) pre]
  have step: "interior (cx, cy)" if "readTile m cx cy \<noteq> readTile (mapTiles s) cx cy" for cx cy
  proof -
    from that carve_other[OF m, of cx cy] have "(cx, cy) \<in> set (roomCells ?r)" by blast
    with ins show ?thesis by blast
  qed
  have "interior (cx, cy)" if "readTile (mapTiles s1) cx cy \<noteq> readTile (mapTiles s) cx cy" for cx cy
  proof (cases "readTile (mapTiles s1) cx cy = readTile m cx cy")
    case True
    with that step show ?thesis by simp
  next
    case False
    with ih show ?thesis by simp
  qed
  with ih show ?case by blast
qed

text \<open>
  C10. When \<open>placeRooms\<close> returns (its draws being values of \<open>Math.random()\<close>), every
  cell of every room it recorded has \<open>1 \<le> rx \<le> MAP_WIDTH - 2\<close> and
  \<open>1 \<le> ry \<le> MAP_HEIGHT - 2\<close>, and every cell of the grid whose content it changed is
  such a cell: no cell of the border is touched.
\<close>

theorem rooms_keep_margin:
  assumes "list_all unitDraw us" and "placeRooms us s = Inr (s1, us1)"
  shows "(\<forall>r \<in> set (rooms s1). \<forall>c \<in> set (roomCells r).
            1 \<le> fst c \<and> fst c \<le> MAP_WIDTH - 2 \<and> 1 \<le> snd c \<and> snd c \<le> MAP_HEIGHT - 2)
       \<and> (\<forall>cx cy. readTile (mapTiles s1) cx cy \<noteq> readTile (mapTiles s) cx cy
             \<longrightarrow> 1 \<le> cx \<and> cx \<le> MAP_WIDTH - 2 \<and> 1 \<le> cy \<and> cy \<le> MAP_HEIGHT - 2)"
proof -
  from assms(2) obtain uc us0 where us: "us = uc # us0"
    and run: "placeRoomsLoop (nat (randomInt ROOM_COUNT_MIN ROOM_COUNT_MAX uc)) us0 (s\<lparr>rooms := []\<rparr>)
                = Inr (s1, us1)"
    by (auto simp: placeRooms_def split: list.splits)
  from assms(1) us have "list_all unitDraw us0" by simp
  from placeRoomsLoop_inside[OF run this] show ?thesis by (simp add: interior_def)
qed

lemma placeRoomsLoop_numeral:
  "placeRoomsLoop (numeral k) us s =
     (case us of
        uw # uh # ux # uy # us1 \<Rightarrow>
          (let w = randomInt ROOM_MIN ROOM_MAX uw;
               h = randomInt ROOM_MIN ROOM_MAX uh;
               rx = randomInt 1 (MAP_WIDTH - w - 2) ux;
               ry = randomInt 1 (MAP_HEIGHT - h - 2) uy;
               r = \<lparr>room_x = rx, room_y = ry, room_w = w, room_h = h\<rparr>
           in case carve (mapTiles s) (roomCells r) of
                Inl e \<Rightarrow> Inl e
              | Inr m \<Rightarrow> placeRoomsLoop (pred_numeral k) us1 (s\<lparr>rooms := rooms s @ [r], mapTiles := m\<rparr>))
      | _ \<Rightarrow> Inl OutOfDraws)"
  by (simp add: numeral_eq_Suc)

theorem rooms_keep_margin_witness:
  "list_all unitDraw roomDraws
   \<and> (\<exists>s1 us1. placeRooms roomDraws (generateMap initialGlobals) = Inr (s1, us1)
        \<and> length (rooms s1) = 5
        \<and> (\<forall>r \<in> set (rooms s1). \<forall>c \<in> set (roomCells r).
              1 \<le> fst c \<and> fst c \<le> MAP_WIDTH - 2 \<and> 1 \<le> snd c \<and> snd c \<le> MAP_HEIGHT - 2)
        \<and> readTile (mapTiles s1) 0 0 = Inr TILE_WALL
        \<and> readTile (mapTiles s1) 1 1 = Inr TILE_EMPTY)"
proof -
  have u: "list_all unitDraw roomDraws" by (simp add: roomDraws_def unitDraw_def)
  have "\<exists>s1 us1. placeRooms roomDraws (generateMap initialGlobals) = Inr (s1, us1)
          \<and> length (rooms s1) = 5
          \<and> readTile (mapTiles s1) 1 1 = Inr TILE_EMPTY"
    by (simp add: roomDraws_def placeRooms_def generateMap_def initialGlobals_def randomInt_def
        config_defs placeRoomsLoop_numeral roomCells_def Let_def writeTile_def readTile_def
        inGrid_def upto.simps)
  then obtain s1 us1 where run: "placeRooms roomDraws (generateMap initialGlobals) = Inr (s1, us1)"
    and rs: "length (rooms s1) = 5"
    and c: "readTile (mapTiles s1) 1 1 = Inr TILE_EMPTY"
    by blast
  note th = rooms_keep_margin[OF u run]
  from th have a: "\<forall>r \<in> set (rooms s1). \<forall>c \<in> set (roomCells r).
              1 \<le> fst c \<and> fst c \<le> MAP_WIDTH - 2 \<and> 1 \<le> snd c \<and> snd c \<le> MAP_HEIGHT - 2"
    by blast
  from th have "readTile (mapTiles s1) 0 0 = readTile (mapTiles (generateMap initialGlobals)) 0 0"
    by fastforce
  also have "\<dots> = Inr TILE_WALL"
    by (simp add: generateMap_def readTile_def inGrid_def config_defs)
  finally have b: "readTile (mapTiles s1) 0 0 = Inr TILE_WALL" .
  from u run rs a b c show ?thesis by blast
qed

section \<open>The invariant of reachable states\<close>

subsection \<open>What init establishes\<close>

lemma readTile_inBounds:
  assumes "wfGrid m" "readTile m cx cy = Inr t"
  shows "0 \<le> cx \<and> cx < MAP_WIDTH \<and> 0 \<le> cy \<and> cy < MAP_HEIGHT"
proof -
  from assms(2) have g: "inGrid m cx cy" by (auto simp: readTile_def split: if_splits)
  then have "nat cy < length m" by (auto simp: inGrid_def)
  with assms(1) have "int (length (m ! nat cy)) = MAP_WIDTH"
    by (simp add: wfGrid_def list_all_length)
  with g assms(1) show ?thesis by (auto simp: inGrid_def wfGrid_def)
qed

lemma wfGrid_generateMap: "wfGrid (mapTiles (generateMap s))"
  by (simp add: generateMap_def wfGrid_def config_defs list_all_length)

lemma carve_wf: "carve m cs = Inr m1 \<Longrightarrow> wfGrid m \<Longrightarrow> wfGrid m1"
proof (induction cs arbitrary: m)
  case Nil
  then show ?case by simp
next
  case (Cons c cs)
  from Cons.prems(1) obtain m0 where w: "writeTile m (fst c) (snd c) TILE_EMPTY = Inr m0"
    and r: "carve m0 cs = Inr m1"
    by (auto split: sum.splits)
  from writeTile_wf[OF w Cons.prems(2)] Cons.IH[OF r] show ?case by simp
qed

lemma placeRoomsLoop_frame:
  assumes "placeRoomsLoop n us s = Inr (s1, us1)"
  shows "hero s1 = hero s \<and> enemies s1 = enemies s \<and> killed s1 = killed s
       \<and> potionsCarried s1 = potionsCarried s \<and> gameOver s1 = gameOver s \<and> winFlag s1 = winFlag s
       \<and> (wfGrid (mapTiles s) \<longrightarrow> wfGrid (mapTiles s1))"
  using assms
proof (induction n arbitrary: us s)
  case 0
  then show ?case by simp
next
  case (Suc n)
  from Suc.prems obtain uw uh ux uy us2 where us: "us = uw # uh # ux # uy # us2"
    by (auto split: list.splits)
  with Suc.prems obtain m r where m: "carve (mapTiles s) (roomCells r) = Inr m"
    and rest: "placeRoomsLoop n us2 (s\<lparr>rooms := rooms s @ [r], mapTiles := m\<rparr>) = Inr (s1, us1)"
    by (auto simp: Let_def split: sum.splits)
  from Suc.IH[OF rest] carve_wf[OF m] show ?case by simp
qed

lemma placeRooms_frame:
  assumes "placeRooms us s = Inr (s1, us1)"
  shows "hero s1 = hero s \<and> enemies s1 = enemies s \<and> killed s1 = killed s
       \<and> potionsCarried s1 = potionsCarried s \<and> gameOver s1 = gameOver s \<and> winFlag s1 = winFlag s
       \<and> (wfGrid (mapTiles s) \<longrightarrow> wfGrid (mapTiles s1))"
proof -
  from assms obtain uc us0 where
    "placeRoomsLoop (nat (randomInt ROOM_COUNT_MIN ROOM_COUNT_MAX uc)) us0 (s\<lparr>rooms := []\<rparr>) = Inr (s1, us1)"
    by (auto simp: placeRooms_def split: list.splits)
  from placeRoomsLoop_frame[OF this] show ?thesis by simp
qed

lemma connectRooms_wf: "connectRooms rs m = Inr m1 \<Longrightarrow> wfGrid m \<Longrightarrow> wfGrid m1"
proof (induction rs m rule: connectRooms.induct)
  case (1 r1 r2 rs m)
  let ?x1 = "room_x r1 + room_w r1 div 2" and ?y1 = "room_y r1 + room_h r1 div 2"
  let ?x2 = "room_x r2 + room_w r2 div 2" and ?y2 = "room_y r2 + room_h r2 div 2"
  from "1.prems"(1) obtain ma mb where
    a: "carve m (map (\<lambda>cx. (cx, ?y1)) [min ?x1 ?x2 .. max ?x1 ?x2]) = Inr ma" and
    b: "carve ma (map (\<lambda>cy. (?x2, cy)) [min ?y1 ?y2 .. max ?y1 ?y2]) = Inr mb" and
    c: "connectRooms (r2 # rs) mb = Inr m1"
    by (auto simp: Let_def split: sum.splits)
  from carve_wf[OF a "1.prems"(2)] have "wfGrid ma" .
  from carve_wf[OF b this] have "wfGrid mb" .
  from "1.IH"[OF refl refl refl refl a b c this] show ?case .
qed simp_all

lemma hCorridors_wf: "hCorridors n us m = Inr (m1, us1) \<Longrightarrow> wfGrid m \<Longrightarrow> wfGrid m1"
proof (induction n arbitrary: us m)
  case 0
  then show ?case by simp
next
  case (Suc n)
  from Suc.prems(1) obtain u us2 m0 where
    "carve m (map (\<lambda>cx. (cx, randomInt 1 (MAP_HEIGHT - 2) u)) [0 .. MAP_WIDTH - 1]) = Inr m0"
    "hCorridors n us2 m0 = Inr (m1, us1)"
    by (auto simp: Let_def split: list.splits sum.splits)
  with carve_wf Suc.IH Suc.prems(2) show ?case by blast
qed

lemma vCorridors_wf: "vCorridors n us m = Inr (m1, us1) \<Longrightarrow> wfGrid m \<Longrightarrow> wfGrid m1"
proof (induction n arbitrary: us m)
  case 0
  then show ?case by simp
next
  case (Suc n)
  from Suc.prems(1) obtain u us2 m0 where
    "carve m (map (\<lambda>cy. (randomInt 1 (MAP_WIDTH - 2) u, cy)) [0 .. MAP_HEIGHT - 1]) = Inr m0"
    "vCorridors n us2 m0 = Inr (m1, us1)"
    by (auto simp: Let_def split: list.splits sum.splits)
  with carve_wf Suc.IH Suc.prems(2) show ?case by blast
qed

lemma carveCorridors_frame:
  assumes "carveCorridors us s = Inr (s1, us1)"
  shows "hero s1 = hero s \<and> enemies s1 = enemies s \<and> killed s1 = killed s
       \<and> potionsCarried s1 = potionsCarried s \<and> gameOver s1 = gameOver s \<and> winFlag s1 = winFlag s
       \<and> (wfGrid (mapTiles s) \<longrightarrow> wfGrid (mapTiles s1))"
proof -
  from assms obtain ma uh uv us2 mb us3 mc where
    a: "connectRooms (rooms s) (mapTiles s) = Inr ma" and
    b: "hCorridors (nat (randomInt CORRIDOR_MIN CORRIDOR_MAX uh)) us2 ma = Inr (mb, us3)" and
    c: "vCorridors (nat (randomInt CORRIDOR_MIN CORRIDOR_MAX uv)) us3 mb = Inr (mc, us1)" and
    s1: "s1 = s\<lparr>mapTiles := mc\<rparr>"
    by (auto simp: carveCorridors_def Let_def split: sum.splits list.splits)
  have "wfGrid mc" if "wfGrid (mapTiles s)"
    using vCorridors_wf[OF c hCorridors_wf[OF b connectRooms_wf[OF a that]]] .
  with s1 show ?thesis by simp
qed

lemma placeHeroLoop_frame:
  assumes "placeHeroLoop us s = Inr (s1, us1)"
  shows "mapTiles s1 = mapTiles s \<and> enemies s1 = enemies s \<and> killed s1 = killed s
       \<and> potionsCarried s1 = potionsCarried s \<and> gameOver s1 = gameOver s \<and> winFlag s1 = winFlag s
       \<and> hp (hero s1) = hp (hero s) \<and> maxHp (hero s1) = maxHp (hero s)
       \<and> attack (hero s1) = attack (hero s)
       \<and> (wfGrid (mapTiles s) \<longrightarrow> inBounds (hero s1))"
  using assms
proof (induction us s rule: placeHeroLoop.induct)
  case (1 ux uy us s)
  let ?cx = "randomInt 0 (MAP_WIDTH - 1) ux" and ?cy = "randomInt 0 (MAP_HEIGHT - 1) uy"
  from "1.prems" obtain t where t: "readTile (mapTiles s) ?cx ?cy = Inr t"
    by (auto simp: Let_def split: sum.splits)
  show ?case
  proof (cases "t = TILE_EMPTY")
    case True
    with t "1.prems" have s1: "s1 = s\<lparr>hero := (hero s)\<lparr>x := ?cx, y := ?cy\<rparr>\<rparr>"
      by (simp add: Let_def)
    have "inBounds (hero s1)" if "wfGrid (mapTiles s)"
      using readTile_inBounds[OF that t] s1 by (simp add: inBounds_def)
    with s1 show ?thesis by simp
  next
    case False
    with t "1.prems" have "placeHeroLoop us s = Inr (s1, us1)" by (simp add: Let_def)
    from "1.IH"[OF refl refl t False this] show ?thesis .
  qed
qed simp_all

lemma placeHero_frame:
  assumes "placeHero us s = Inr (s1, us1)"
  shows "mapTiles s1 = mapTiles s \<and> enemies s1 = enemies s \<and> killed s1 = killed s
       \<and> potionsCarried s1 = potionsCarried s \<and> gameOver s1 = gameOver s \<and> winFlag s1 = winFlag s
       \<and> hp (hero s1) = HERO_HP \<and> maxHp (hero s1) = HERO_HP \<and> attack (hero s1) = HERO_ATTACK
       \<and> (wfGrid (mapTiles s) \<longrightarrow> inBounds (hero s1))"
  using placeHeroLoop_frame[OF assms[unfolded placeHero_def]] by simp

lemma placeTiles_frame:
  assumes "placeTiles t limit placed us s = Inr (s1, us1)"
  shows "hero s1 = hero s \<and> enemies s1 = enemies s \<and> killed s1 = killed s
       \<and> potionsCarried s1 = potionsCarried s \<and> gameOver s1 = gameOver s \<and> winFlag s1 = winFlag s
       \<and> (wfGrid (mapTiles s) \<longrightarrow> wfGrid (mapTiles s1))"
  using assms
proof (induction t limit placed us s rule: placeTiles.induct)
  case (1 t limit placed us s)
  show ?case
  proof (cases "placed < limit")
    case False
    with "1.prems" show ?thesis by (simp add: placeTiles.simps[of t limit placed us s])
  next
    case True
    note run = "1.prems"(1)[unfolded placeTiles.simps[of t limit placed us s]]
    from True run obtain ux uy us2 where us: "us = ux # uy # us2"
      by (auto split: list.splits)
    let ?cx = "randomInt 0 (MAP_WIDTH - 1) ux" and ?cy = "randomInt 0 (MAP_HEIGHT - 1) uy"
    from True run us obtain t0 where t0: "readTile (mapTiles s) ?cx ?cy = Inr t0"
      by (auto simp: Let_def split: sum.splits)
    show ?thesis
    proof (cases "t0 = TILE_EMPTY \<and> \<not> (?cx = x (hero s) \<and> ?cy = y (hero s))")
      case False
      with True us t0 run have "placeTiles t limit placed us2 s = Inr (s1, us1)"
        by (auto simp: Let_def)
      from "1.IH"(2)[OF True us refl refl refl t0 False this] show ?thesis .
    next
      case ok: True
      from True us t0 ok run obtain m where
        m: "writeTile (mapTiles s) ?cx ?cy t = Inr m"
        by (auto simp: Let_def split: sum.splits)
      with True us t0 ok run have
        rec: "placeTiles t limit (placed + 1) us2 (s\<lparr>mapTiles := m\<rparr>) = Inr (s1, us1)"
        by (simp add: Let_def)
      from "1.IH"(1)[OF True us refl refl refl t0 ok m rec] writeTile_wf[OF m]
      show ?thesis by simp
    qed
  qed
qed

lemma placeItems_frame:
  assumes "placeItems us s = Inr (s1, us1)"
  shows "hero s1 = hero s \<and> enemies s1 = enemies s \<and> killed s1 = killed s
       \<and> potionsCarried s1 = potionsCarried s \<and> gameOver s1 = gameOver s \<and> winFlag s1 = winFlag s
       \<and> (wfGrid (mapTiles s) \<longrightarrow> wfGrid (mapTiles s1))"
proof -
  from assms obtain s0 us0 where
    a: "placeTiles TILE_SWORD 2 0 us s = Inr (s0, us0)" and
    b: "placeTiles TILE_POTION 10 0 us0 s0 = Inr (s1, us1)"
    by (auto simp: placeItems_def split: sum.splits)
  from placeTiles_frame[OF a] placeTiles_frame[OF b] show ?thesis by simp
qed

declare placeEnemiesLoop.simps [simp del]

lemma placeEnemiesLoop_result:
  assumes "placeEnemiesLoop count us s = Inr (s1, us1)" "count \<le> ENEMY_COUNT"
    and "wfGrid (mapTiles s)"
    and "list_all (\<lambda>e. inBounds e \<and> 0 \<le> attack e) (enemies s)"
    and "distinct (map cellOf (enemies s))"
  shows "mapTiles s1 = mapTiles s \<and> hero s1 = hero s \<and> killed s1 = killed s
       \<and> potionsCarried s1 = potionsCarried s \<and> gameOver s1 = gameOver s \<and> winFlag s1 = winFlag s
       \<and> int (length (enemies s1)) = int (length (enemies s)) + (ENEMY_COUNT - count)
       \<and> list_all (\<lambda>e. inBounds e \<and> 0 \<le> attack e) (enemies s1)
       \<and> distinct (map cellOf (enemies s1))"
  using assms
proof (induction count us s rule: placeEnemiesLoop.induct)
  case (1 count us s)
  show ?case
  proof (cases "count < ENEMY_COUNT")
    case False
    with "1.prems" show ?thesis by (simp add: placeEnemiesLoop.simps[of count us s])
  next
    case True
    note run = "1.prems"(1)[unfolded placeEnemiesLoop.simps[of count us s]]
    from True run obtain ux uy us2 where us: "us = ux # uy # us2"
      by (auto split: list.splits)
    let ?cx = "randomInt 0 (MAP_WIDTH - 1) ux" and ?cy = "randomInt 0 (MAP_HEIGHT - 1) uy"
    from True run us obtain t0 where t0: "readTile (mapTiles s) ?cx ?cy = Inr t0"
      by (auto simp: Let_def split: sum.splits)
    let ?ok = "t0 = TILE_EMPTY \<and> (?cx \<noteq> x (hero s) \<or> ?cy \<noteq> y (hero s))
                 \<and> \<not> list_ex (atTile ?cx ?cy) (enemies s)"
    show ?thesis
    proof (cases ?ok)
      case False
      with True us t0 run have "placeEnemiesLoop count us2 s = Inr (s1, us1)"
        by (auto simp: Let_def)
      from "1.IH"(2)[OF True us refl refl refl t0 False this "1.prems"(2-5)] show ?thesis .
    next
      case ok: True
      let ?e = "\<lparr>x = ?cx, y = ?cy, hp = ENEMY_HP, maxHp = ENEMY_HP,
                  attack = ENEMY_ATTACK, justRetaliated = False\<rparr>"
      let ?s = "s\<lparr>enemies := enemies s @ [?e]\<rparr>"
      from True us t0 ok run have rec: "placeEnemiesLoop (count + 1) us2 ?s = Inr (s1, us1)"
        by (simp add: Let_def)
      from True have le: "count + 1 \<le> ENEMY_COUNT" by simp
      have wf: "wfGrid (mapTiles ?s)" using "1.prems"(3) by simp
      have ib: "inBounds ?e" using readTile_inBounds[OF "1.prems"(3) t0] by (simp add: inBounds_def)
      have la: "list_all (\<lambda>e. inBounds e \<and> 0 \<le> attack e) (enemies ?s)"
        using "1.prems"(4) ib by (simp add: ENEMY_ATTACK_def)
      from ok have "cellOf ?e \<notin> set (map cellOf (enemies s))"
        by (auto simp: list_ex_iff atTile_def cellOf_def)
      then have di: "distinct (map cellOf (enemies ?s))"
        using "1.prems"(5) by simp
      from "1.IH"(1)[OF True us refl refl refl t0 ok rec le wf la di] show ?thesis by simp
    qed
  qed
qed

lemma init_establishes:
  assumes "init us s = Inr (s1, us1)"
  shows "gameInv s1 \<and> killed s1 = 0 \<and> int (length (enemies s1)) = ENEMY_COUNT
       \<and> hp (hero s1) = HERO_HP \<and> maxHp (hero s1) = HERO_HP \<and> phase_of s1 = Playing"
proof -
  let ?s0 = "generateMap (s\<lparr>potionsCarried := 0, killed := 0, gameOver := False, winFlag := False\<rparr>)"
  from assms obtain sa ua sb ub sc uc sd ud where
    a: "placeRooms us ?s0 = Inr (sa, ua)" and
    b: "carveCorridors ua sa = Inr (sb, ub)" and
    c: "placeHero ub sb = Inr (sc, uc)" and
    d: "placeItems uc sc = Inr (sd, ud)" and
    e: "placeEnemies ud sd = Inr (s1, us1)"
    by (auto simp: init_def Let_def split: sum.splits)
  have s0: "wfGrid (mapTiles ?s0)" "killed ?s0 = 0" "\<not> gameOver ?s0"
    using wfGrid_generateMap by (simp_all add: generateMap_def)
  note fa = placeRooms_frame[OF a] and fb = carveCorridors_frame[OF b]
    and fc = placeHero_frame[OF c] and fd = placeItems_frame[OF d]
  from fa fb fc fd s0 have sd: "wfGrid (mapTiles sd)" "killed sd = 0" "\<not> gameOver sd"
    "hp (hero sd) = HERO_HP" "maxHp (hero sd) = HERO_HP" "inBounds (hero sd)"
    by simp_all
  from e have e': "placeEnemiesLoop 0 ud (sd\<lparr>enemies := []\<rparr>) = Inr (s1, us1)"
    by (simp add: placeEnemies_def)
  have "(0::int) \<le> ENEMY_COUNT" by (simp add: ENEMY_COUNT_def)
  from placeEnemiesLoop_result[OF e' this] sd
  have r: "mapTiles s1 = mapTiles sd" "hero s1 = hero sd" "killed s1 = 0" "\<not> gameOver s1"
    "int (length (enemies s1)) = ENEMY_COUNT"
    "list_all (\<lambda>e. inBounds e \<and> 0 \<le> attack e) (enemies s1)" "distinct (map cellOf (enemies s1))"
    by simp_all
  from r sd show ?thesis
    by (simp add: gameInv_def phase_of_def HERO_HP_def)
qed

subsection \<open>What every step keeps\<close>

lemma gameInvI:
  assumes "wfGrid (mapTiles s)" "inBounds (hero s)"
    and "list_all (\<lambda>e. inBounds e \<and> 0 \<le> attack e) (enemies s)"
    and "distinct (map cellOf (enemies s))"
    and "hp (hero s) \<le> maxHp (hero s)"
    and "phase_of s = Lost \<Longrightarrow> hp (hero s) = 0"
    and "phase_of s \<noteq> Lost \<Longrightarrow> 0 < hp (hero s)"
    and "killed s + int (length (enemies s)) = ENEMY_COUNT"
    and "phase_of s = Won \<Longrightarrow> enemies s = []"
  shows "gameInv s"
  using assms unfolding gameInv_def by simp

lemma gameInvD:
  assumes "gameInv s"
  shows "wfGrid (mapTiles s)" "inBounds (hero s)"
    and "list_all (\<lambda>e. inBounds e \<and> 0 \<le> attack e) (enemies s)"
    and "distinct (map cellOf (enemies s))"
    and "hp (hero s) \<le> maxHp (hero s)"
    and "phase_of s = Lost \<Longrightarrow> hp (hero s) = 0"
    and "phase_of s \<noteq> Lost \<Longrightarrow> 0 < hp (hero s)"
    and "killed s + int (length (enemies s)) = ENEMY_COUNT"
    and "phase_of s = Won \<Longrightarrow> enemies s = []"
    and "0 \<le> hp (hero s)"
proof -
  from assms show "wfGrid (mapTiles s)" "inBounds (hero s)"
    "list_all (\<lambda>e. inBounds e \<and> 0 \<le> attack e) (enemies s)"
    "distinct (map cellOf (enemies s))" "hp (hero s) \<le> maxHp (hero s)"
    "killed s + int (length (enemies s)) = ENEMY_COUNT"
    unfolding gameInv_def by simp_all
  from assms show l: "phase_of s = Lost \<Longrightarrow> hp (hero s) = 0"
    unfolding gameInv_def by simp
  from assms show p: "phase_of s \<noteq> Lost \<Longrightarrow> 0 < hp (hero s)"
    unfolding gameInv_def by simp
  from assms show "phase_of s = Won \<Longrightarrow> enemies s = []"
    unfolding gameInv_def by simp
  from l p show "0 \<le> hp (hero s)" by (cases "phase_of s = Lost") simp_all
qed

lemma list_all_update:
  "list_all P es \<Longrightarrow> P v \<Longrightarrow> list_all P (es[i := v])"
  by (induction es arbitrary: i) (auto split: nat.splits)

lemma distinct_update_cell:
  assumes "distinct (map cellOf es)" "i < length es"
    and "\<forall>k < length es. k \<noteq> i \<longrightarrow> cellOf (es ! k) \<noteq> cellOf v"
  shows "distinct (map cellOf (es[i := v]))"
proof -
  have "map cellOf (es[i := v]) ! a \<noteq> map cellOf (es[i := v]) ! b"
    if "a < length es" "b < length es" "a \<noteq> b" for a b
  proof -
    have ab: "cellOf (es ! a) \<noteq> cellOf (es ! b)"
      using distinct_cells_unique[OF assms(1) that(1,2)] that(3) by blast
    show ?thesis
    proof (cases "a = i")
      case True
      with that assms(3) show ?thesis by (auto simp: nth_list_update)
    next
      case False
      show ?thesis
      proof (cases "b = i")
        case True
        with that assms(3) False show ?thesis by (auto simp: nth_list_update)
      next
        case nb: False
        with False that ab show ?thesis by (simp add: nth_list_update)
      qed
    qed
  qed
  then show ?thesis by (simp add: distinct_conv_nth)
qed

lemma otherEnemyAt_iff:
  "otherEnemyAt i nx ny es \<longleftrightarrow> (\<exists>k < length es. k \<noteq> i \<and> cellOf (es ! k) = (nx, ny))"
  by (auto simp: otherEnemyAt_def list_ex_iff atTile_cellOf)

lemma enemyTurn_inv:
  assumes inv: "gameInv s" and i: "i < length (enemies s)"
    and turn: "enemyTurn i us s = Inr (b, us1, s1)"
  shows "gameInv s1"
proof -
  note d = gameInvD[OF inv]
  let ?e = "enemies s ! i"
  from d(3) i have ei: "inBounds ?e" "0 \<le> attack ?e" by (simp_all add: list_all_length)
  from d(9) i have nw: "phase_of s \<noteq> Won" by auto
  from turn show ?thesis
  proof (cases rule: enemyTurn_cases)
    case skip
    let ?v = "?e\<lparr>justRetaliated := False\<rparr>"
    have la: "list_all (\<lambda>e. inBounds e \<and> 0 \<le> attack e) ((enemies s)[i := ?v])"
      using d(3) ei by (intro list_all_update) (simp_all add: inBounds_def)
    have di: "distinct (map cellOf ((enemies s)[i := ?v]))"
    proof (rule distinct_update_cell[OF d(4) i], intro allI impI)
      fix k assume "k < length (enemies s)" "k \<noteq> i"
      with distinct_cells_unique[OF d(4) _ i, of k] show "cellOf (enemies s ! k) \<noteq> cellOf ?v"
        by (auto simp: cellOf_def)
    qed
    have ph: "phase_of s1 = phase_of s" using skip by (simp add: phase_of_def)
    show ?thesis
      using skip d la di nw ph by (intro gameInvI) simp_all
  next
    case hit
    have nl: "phase_of s \<noteq> Lost"
    proof
      assume "phase_of s = Lost"
      with d(6) have "hp (hero s) = 0" by simp
      with hit(5) ei(2) show False by simp
    qed
    have ph: "phase_of s1 = phase_of s" using hit by (simp add: phase_of_def)
    show ?thesis
      using hit d ei nl nw ph by (intro gameInvI) (simp_all add: inBounds_def)
  next
    case kill
    have ph: "phase_of s1 = Lost" using kill by (simp add: phase_of_def endGame_def)
    have "0 \<le> maxHp (hero s)" using d(5) d(10) by simp
    then show ?thesis
      using kill d ph by (intro gameInvI) (simp_all add: endGame_def inBounds_def)
  next
    case (stay u)
    with inv show ?thesis by simp
  next
    case (move u mv)
    let ?nx = "wrapX (x ?e + fst mv)" and ?ny = "wrapY (y ?e + snd mv)"
    let ?v = "?e\<lparr>x := ?nx, y := ?ny\<rparr>"
    have ib: "inBounds ?v" using wrapX_range wrapY_range by (simp add: inBounds_def)
    have la: "list_all (\<lambda>e. inBounds e \<and> 0 \<le> attack e) ((enemies s)[i := ?v])"
      using d(3) ei ib by (intro list_all_update) simp_all
    have di: "distinct (map cellOf ((enemies s)[i := ?v]))"
    proof (rule distinct_update_cell[OF d(4) i], intro allI impI)
      fix k assume "k < length (enemies s)" "k \<noteq> i"
      with move(7) show "cellOf (enemies s ! k) \<noteq> cellOf ?v"
        by (auto simp: otherEnemyAt_iff cellOf_def)
    qed
    have ph: "phase_of s1 = phase_of s" using move by (simp add: phase_of_def)
    show ?thesis
      using move d la di nw ph by (intro gameInvI) simp_all
  qed
qed

lemma updateEnemies_inv:
  assumes "gameInv s" "updateEnemies us s = Inr s1"
  shows "gameInv s1"
  using sweep_preserves[of gameInv s 0 us s1] enemyTurn_inv assms
  unfolding updateEnemies_def by blast

lemma find_in_set: "find p es = Some e \<Longrightarrow> e \<in> set es"
  by (induction es) (auto split: if_splits)

lemma damageFrom_hp:
  assumes "list_all (\<lambda>e. inBounds e \<and> 0 \<le> attack e) (enemies s)"
  shows "hp (hero (damageFrom s d)) \<le> hp (hero s)"
proof (cases "find (atTile (x (hero s) + fst d) (y (hero s) + snd d)) (enemies s)")
  case None
  then show ?thesis by (simp add: damageFrom_def Let_def)
next
  case (Some en)
  from find_in_set[OF Some] assms have "0 \<le> attack en" by (simp add: list_all_iff)
  with Some show ?thesis by (simp add: damageFrom_def Let_def)
qed

lemma foldl_damageFrom_hp:
  assumes "list_all (\<lambda>e. inBounds e \<and> 0 \<le> attack e) (enemies s)"
  shows "hp (hero (foldl damageFrom s ds)) \<le> hp (hero s)"
  using assms
proof (induction ds arbitrary: s)
  case Nil
  then show ?case by simp
next
  case (Cons d ds)
  have "list_all (\<lambda>e. inBounds e \<and> 0 \<le> attack e) (enemies (damageFrom s d))"
    using Cons.prems by (simp add: damageFrom_frame)
  from Cons.IH[OF this] damageFrom_hp[OF Cons.prems, of d] show ?case by simp
qed

lemma adjacentEnemyDamage_inv:
  assumes "gameInv s" "\<not> gameOver s"
  shows "gameInv (adjacentEnemyDamage s)"
proof -
  note d = gameInvD[OF assms(1)]
  let ?t = "foldl damageFrom s dirs"
  note f = foldl_damageFrom_frame[of s dirs]
  have le: "hp (hero ?t) \<le> hp (hero s)" using foldl_damageFrom_hp[OF d(3)] .
  have mx: "0 \<le> maxHp (hero s)" using d(5) d(10) by simp
  have pt: "phase_of ?t = Playing" using assms(2) f by (simp add: phase_of_def)
  show ?thesis
  proof (cases "hp (hero ?t) \<le> 0")
    case True
    then have eq: "adjacentEnemyDamage s = endGame ?t" by (simp add: adjacentEnemyDamage_def Let_def)
    have ph: "phase_of (endGame ?t) = Lost" by (simp add: phase_of_def endGame_def)
    show ?thesis unfolding eq
      using d f mx ph by (intro gameInvI) (simp_all add: endGame_def inBounds_def)
  next
    case False
    then have eq: "adjacentEnemyDamage s = ?t" by (simp add: adjacentEnemyDamage_def Let_def)
    show ?thesis unfolding eq
      using d f le False pt by (intro gameInvI) (simp_all add: inBounds_def)
  qed
qed

lemma checkPickup_inv:
  assumes "gameInv s" "\<not> gameOver s" "checkPickup s = Inr s1"
  shows "gameInv s1 \<and> \<not> gameOver s1"
proof -
  note d = gameInvD[OF assms(1)]
  have ps: "phase_of s = Playing" using assms(2) by (simp add: phase_of_def)
  from assms(3) obtain t where t: "readTile (mapTiles s) (x (hero s)) (y (hero s)) = Inr t"
    by (auto simp: checkPickup_def split: sum.splits)
  have hp: "0 < hp (hero s)" using d(7) ps by simp
  consider (potion) "t = TILE_POTION" | (sword) "t = TILE_SWORD" | (none) "t \<noteq> TILE_POTION" "t \<noteq> TILE_SWORD"
    by blast
  then show ?thesis
  proof cases
    case potion
    with t assms(3) obtain m where m: "writeTile (mapTiles s) (x (hero s)) (y (hero s)) TILE_EMPTY = Inr m"
      and s1: "s1 = s\<lparr>potionsCarried := potionsCarried s + 1,
                      hero := (hero s)\<lparr>hp := min (maxHp (hero s)) (hp (hero s) + POTION_COUNT)\<rparr>,
                      mapTiles := m\<rparr>"
      by (auto simp: checkPickup_def split: sum.splits)
    have p1: "phase_of s1 = Playing" using s1 assms(2) by (simp add: phase_of_def)
    have "gameInv s1"
      using s1 d writeTile_wf[OF m] hp p1
      by (intro gameInvI) (simp_all add: inBounds_def POTION_COUNT_def)
    with s1 assms(2) show ?thesis by simp
  next
    case sword
    with t assms(3) obtain m where m: "writeTile (mapTiles s) (x (hero s)) (y (hero s)) TILE_EMPTY = Inr m"
      and s1: "s1 = s\<lparr>hero := (hero s)\<lparr>attack := attack (hero s) + SWORD_COUNT\<rparr>, mapTiles := m\<rparr>"
      by (auto simp: checkPickup_def split: sum.splits)
    have p1: "phase_of s1 = Playing" using s1 assms(2) by (simp add: phase_of_def)
    have "gameInv s1"
      using s1 d writeTile_wf[OF m] hp p1
      by (intro gameInvI) (simp_all add: inBounds_def)
    with s1 assms(2) show ?thesis by simp
  next
    case none
    with t assms(3) have "s1 = s" by (simp add: checkPickup_def)
    with assms show ?thesis by simp
  qed
qed

lemma attemptMove_inv:
  assumes "gameInv s" "\<not> gameOver s" "attemptMove dx dy s = Inr s1"
  shows "gameInv s1"
proof -
  note d = gameInvD[OF assms(1)]
  let ?nx = "wrapX (x (hero s) + dx)" and ?ny = "wrapY (y (hero s) + dy)"
  let ?s = "s\<lparr>hero := (hero s)\<lparr>x := ?nx, y := ?ny\<rparr>\<rparr>"
  from assms(3) obtain t where t: "readTile (mapTiles s) ?nx ?ny = Inr t"
    by (auto simp: attemptMove_def Let_def split: sum.splits)
  show ?thesis
  proof (cases "t = TILE_WALL \<or> list_ex (atTile ?nx ?ny) (enemies s)")
    case True
    with t assms(3) have "s1 = s" by (auto simp: attemptMove_def Let_def split: if_splits)
    with assms(1) show ?thesis by simp
  next
    case False
    with t assms(3) obtain s2 where c: "checkPickup ?s = Inr s2" and s1: "s1 = adjacentEnemyDamage s2"
      by (auto simp: attemptMove_def Let_def split: sum.splits)
    have ph: "phase_of ?s = phase_of s" by (simp add: phase_of_def)
    have "gameInv ?s"
      using d wrapX_range wrapY_range ph by (intro gameInvI) (simp_all add: inBounds_def)
    moreover have "\<not> gameOver ?s" using assms(2) by simp
    ultimately have "gameInv s2" "\<not> gameOver s2" using checkPickup_inv[OF _ _ c] by simp_all
    from adjacentEnemyDamage_inv[OF this] s1 show ?thesis by simp
  qed
qed

lemma strike_count:
  "int (length (concat (map (strikeIn T a) es)))
     + int (length (filter (\<lambda>e. cellOf e \<in> T \<and> hp e - a \<le> 0) es)) = int (length es)"
  by (induction es) (auto simp: strikeIn_def)

lemma strike_none_left:
  "concat (map (strikeIn T a) es) = [] \<Longrightarrow> filter (\<lambda>e. cellOf e \<in> T \<and> hp e - a > 0) es = []"
  by (induction es) (auto simp: strikeIn_def split: if_splits)

lemma strike_list_all:
  "list_all (\<lambda>e. inBounds e \<and> 0 \<le> attack e) es
     \<Longrightarrow> list_all (\<lambda>e. inBounds e \<and> 0 \<le> attack e) (concat (map (strikeIn T a) es))"
  by (induction es) (auto simp: strikeIn_def inBounds_def)

lemma survivors_sum_nonneg:
  "list_all (\<lambda>e. inBounds e \<and> 0 \<le> attack e) es \<Longrightarrow> 0 \<le> sum_list (map attack (filter p es))"
  by (induction es) auto

lemma heroAttack_inv:
  assumes "gameInv s" "\<not> gameOver s"
  shows "gameInv (heroAttack s)"
proof -
  note d = gameInvD[OF assms(1)]
  let ?N = "neighbourCells (hero s)" and ?a = "attack (hero s)"
  let ?t = "attackSpec s"
  have ps: "phase_of s = Playing" using assms(2) by (simp add: phase_of_def)
  have hp: "0 < hp (hero s)" using d(7) ps by simp
  have loop: "foldl attackSlot s dirs = ?t" using attack_loop_is_spec[OF d(4)] .
  have t_en: "enemies ?t = concat (map (strikeIn ?N ?a) (enemies s))"
    and t_hp: "hp (hero ?t) = hp (hero s)
                 - sum_list (map attack (filter (\<lambda>e. cellOf e \<in> ?N \<and> hp e - ?a > 0) (enemies s)))"
    and t_k: "killed ?t = killed s
                 + int (length (filter (\<lambda>e. cellOf e \<in> ?N \<and> hp e - ?a \<le> 0) (enemies s)))"
    and t_fr: "mapTiles ?t = mapTiles s" "x (hero ?t) = x (hero s)" "y (hero ?t) = y (hero s)"
      "maxHp (hero ?t) = maxHp (hero s)" "gameOver ?t = gameOver s" "winFlag ?t = winFlag s"
    by (simp_all add: attackSpec_def strikeSpec_def)
  have le: "hp (hero ?t) \<le> hp (hero s)"
    using survivors_sum_nonneg[OF d(3)] unfolding t_hp by simp
  have la: "list_all (\<lambda>e. inBounds e \<and> 0 \<le> attack e) (enemies ?t)"
    unfolding t_en using strike_list_all[OF d(3)] .
  have di: "distinct (map cellOf (enemies ?t))"
    unfolding t_en using strike_distinct[OF d(4)] .
  have cnt: "killed ?t + int (length (enemies ?t)) = ENEMY_COUNT"
    unfolding t_en t_k using strike_count[of ?N ?a "enemies s"] d(8) by simp
  have same_hp: "hp (hero ?t) = hp (hero s)" if "enemies ?t = []"
    using strike_none_left[of ?N ?a "enemies s"] that unfolding t_en t_hp by simp
  have mx: "0 \<le> maxHp (hero s)" using d(5) d(10) by simp
  have ib: "inBounds (hero ?t)" using d(2) t_fr by (simp add: inBounds_def)
  have pt: "phase_of ?t = Playing" using assms(2) t_fr by (simp add: phase_of_def)
  have ha: "heroAttack s = (if enemies ?t = [] \<or> killed ?t \<ge> ENEMY_COUNT then win ?t
                            else if hp (hero ?t) \<le> 0 then endGame ?t else ?t)"
    using loop by (simp add: heroAttack_def Let_def)
  show ?thesis
  proof (cases "enemies ?t = [] \<or> killed ?t \<ge> ENEMY_COUNT")
    case True
    have em: "enemies ?t = []"
    proof (cases "enemies ?t = []")
      case False
      with True have "ENEMY_COUNT \<le> killed ?t" by simp
      with cnt have "int (length (enemies ?t)) \<le> 0" by linarith
      then show ?thesis by simp
    qed simp
    from True ha have eq: "heroAttack s = win ?t" by simp
    have ph: "phase_of (win ?t) = Won" by (simp add: phase_of_def win_def)
    show ?thesis unfolding eq
      using d t_fr em same_hp[OF em] hp ph ib
      by (intro gameInvI) (simp_all add: win_def cnt[unfolded em, simplified])
  next
    case nw: False
    show ?thesis
    proof (cases "hp (hero ?t) \<le> 0")
      case True
      with nw ha have eq: "heroAttack s = endGame ?t" by simp
      have ph: "phase_of (endGame ?t) = Lost" by (simp add: phase_of_def endGame_def)
      show ?thesis unfolding eq
        using d t_fr la di cnt mx ph ib
        by (intro gameInvI) (simp_all add: endGame_def inBounds_def)
    next
      case False
      with nw ha have eq: "heroAttack s = ?t" by simp
      show ?thesis unfolding eq
        using d t_fr la di cnt le False pt ib
        by (intro gameInvI) simp_all
    qed
  qed
qed

lemma handleInput_inv:
  assumes "gameInv s" "handleInput key us s = Inr s1"
  shows "gameInv s1"
proof (cases "gameOver s")
  case True
  with assms show ?thesis by (simp add: handleInput_def)
next
  case False
  show ?thesis
  proof (cases "keyMap key")
    case (Some d)
    obtain dx dy where dd: "d = (dx, dy)" by (cases d) auto
    with Some False assms(2) obtain s2 where m: "attemptMove dx dy s = Inr s2"
      and u: "updateEnemies us s2 = Inr s1"
      by (auto simp: handleInput_def split: sum.splits)
    from updateEnemies_inv[OF attemptMove_inv[OF assms(1) False m] u] show ?thesis .
  next
    case None
    show ?thesis
    proof (cases "key = '' ''")
      case True
      with None False assms(2) have "updateEnemies us (heroAttack s) = Inr s1"
        by (simp add: handleInput_def)
      from updateEnemies_inv[OF heroAttack_inv[OF assms(1) False] this] show ?thesis .
    next
      case nk: False
      with None False assms show ?thesis by (simp add: handleInput_def)
    qed
  qed
qed

lemma reachable_inv: "reachable s \<Longrightarrow> gameInv s"
proof (induction rule: reachable.induct)
  case (start us s us1)
  with init_establishes show ?case by blast
next
  case (action s us key s1)
  with handleInput_inv show ?case by blast
next
  case (restart s us s1 us1)
  with init_establishes show ?case by blast
qed

text \<open>
  So every reachable state meets what the theorems on single operations assume: a grid
  of the configured shape, the hero on it, the enemies on distinct cells.
\<close>

lemma reachable_preconditions:
  assumes "reachable s"
  shows "wfGrid (mapTiles s)" "inBounds (hero s)" "distinct (map cellOf (enemies s))"
  using gameInvD[OF reachable_inv[OF assms]] by simp_all

text \<open>The example states of the single-operation theorems satisfy the invariant as well.\<close>

lemma example_states_inv: "gameInv duelState \<and> gameInv meleeState \<and> gameInv edgeState"
  by (simp add: gameInv_def duelState_def meleeState_def edgeState_def wfGrid_corridorGrid
      inBounds_def cellOf_def phase_of_def config_defs)

subsection \<open>One run of init\<close>

lemma hCorridors_numeral:
  "hCorridors (numeral k) us m =
     (case us of
        [] \<Rightarrow> Inl OutOfDraws
      | u # us1 \<Rightarrow>
          (let cy = randomInt 1 (MAP_HEIGHT - 2) u
           in case carve m (map (\<lambda>cx. (cx, cy)) [0 .. MAP_WIDTH - 1]) of
                Inl e \<Rightarrow> Inl e
              | Inr m1 \<Rightarrow> hCorridors (pred_numeral k) us1 m1))"
  by (simp add: numeral_eq_Suc)

lemma vCorridors_numeral:
  "vCorridors (numeral k) us m =
     (case us of
        [] \<Rightarrow> Inl OutOfDraws
      | u # us1 \<Rightarrow>
          (let cx = randomInt 1 (MAP_WIDTH - 2) u
           in case carve m (map (\<lambda>cy. (cx, cy)) [0 .. MAP_HEIGHT - 1]) of
                Inl e \<Rightarrow> Inl e
              | Inr m1 \<Rightarrow> vCorridors (pred_numeral k) us1 m1))"
  by (simp add: numeral_eq_Suc)

lemma init_startDraws:
  "\<exists>s. init startDraws initialGlobals = Inr (s, [])
       \<and> hero s = \<lparr>x = 5, y = 1, hp = 10, maxHp = 10, attack = 1\<rparr>
       \<and> enemies s = map (\<lambda>cx. \<lparr>x = cx, y = 1, hp = 5, maxHp = 5, attack = 1, justRetaliated = False\<rparr>)
                        [6, 20, 21, 22, 23, 24, 25, 26, 27, 28]
       \<and> killed s = 0 \<and> potionsCarried s = 0 \<and> \<not> gameOver s
       \<and> readTile (mapTiles s) 4 1 = Inr TILE_POTION"
  by (simp add: startDraws_def roomDraws_def init_def placeRooms_def generateMap_def
      initialGlobals_def randomInt_def config_defs placeRoomsLoop_numeral hCorridors_numeral
      vCorridors_numeral carveCorridors_def placeHero_def placeItems_def placeTiles.simps
      placeEnemies_def placeEnemiesLoop.simps atTile_def roomCells_def Let_def writeTile_def
      readTile_def inGrid_def upto.simps)

lemma startState_facts:
  "init startDraws initialGlobals = Inr (startState, [])"
  "hero startState = \<lparr>x = 5, y = 1, hp = 10, maxHp = 10, attack = 1\<rparr>"
  "enemies startState = map (\<lambda>cx. \<lparr>x = cx, y = 1, hp = 5, maxHp = 5, attack = 1, justRetaliated = False\<rparr>)
                        [6, 20, 21, 22, 23, 24, 25, 26, 27, 28]"
  "killed startState = 0" "potionsCarried startState = 0" "\<not> gameOver startState"
  "readTile (mapTiles startState) 4 1 = Inr TILE_POTION"
proof -
  from init_startDraws obtain s where s: "init startDraws initialGlobals = Inr (s, [])"
    "hero s = \<lparr>x = 5, y = 1, hp = 10, maxHp = 10, attack = 1\<rparr>"
    "enemies s = map (\<lambda>cx. \<lparr>x = cx, y = 1, hp = 5, maxHp = 5, attack = 1, justRetaliated = False\<rparr>)
                        [6, 20, 21, 22, 23, 24, 25, 26, 27, 28]"
    "killed s = 0" "potionsCarried s = 0" "\<not> gameOver s"
    "readTile (mapTiles s) 4 1 = Inr TILE_POTION"
    by blast
  from s(1) have eq: "startState = s" by (simp add: startState_def)
  from s show "init startDraws initialGlobals = Inr (startState, [])"
    "hero startState = \<lparr>x = 5, y = 1, hp = 10, maxHp = 10, attack = 1\<rparr>"
    "enemies startState = map (\<lambda>cx. \<lparr>x = cx, y = 1, hp = 5, maxHp = 5, attack = 1, justRetaliated = False\<rparr>)
                        [6, 20, 21, 22, 23, 24, 25, 26, 27, 28]"
    "killed startState = 0" "potionsCarried startState = 0" "\<not> gameOver startState"
    "readTile (mapTiles startState) 4 1 = Inr TILE_POTION"
    unfolding eq by simp_all
qed

lemma unitDraw_startDraws: "list_all unitDraw startDraws"
  by (simp add: startDraws_def roomDraws_def unitDraw_def)

lemma reachable_startState: "reachable startState"
  using reachable.start[OF unitDraw_startDraws startState_facts(1)] .

section \<open>C3: the hero's hit points stay in range\<close>

text \<open>
  C3. After every key event handled in a reachable state, the hero's hit points lie between
  0 and \<open>maxHp\<close>; they are 0 exactly when the game is lost, so damage that takes them to
  0 or below ends the game with exactly 0 hit points, and a potion never raises them above
  \<open>maxHp\<close>.
\<close>

theorem hero_hp_in_range:
  assumes "reachable s" and "handleInput key us s = Inr s1"
  shows "0 \<le> hp (hero s1) \<and> hp (hero s1) \<le> maxHp (hero s1)
       \<and> (hp (hero s1) = 0 \<longleftrightarrow> phase_of s1 = Lost)"
proof -
  from handleInput_inv[OF reachable_inv[OF assms(1)] assms(2)] have inv: "gameInv s1" .
  note d = gameInvD[OF inv]
  from d(6) d(7) have "hp (hero s1) = 0 \<longleftrightarrow> phase_of s1 = Lost" by (cases "phase_of s1 = Lost") auto
  with d(5) d(10) show ?thesis by simp
qed

text \<open>
  An instance: from the start state the hero steps west onto the potion at \<open>(4, 1)\<close>
  with full hit points; the heal is cut off at \<open>maxHp = 10\<close>. Every enemy stays.
\<close>

theorem hero_hp_in_range_witness:
  "reachable startState
   \<and> handleInput ''a'' [0, 0, 0, 0, 0, 0, 0, 0, 0, 0] startState =
       Inr (startState\<lparr>potionsCarried := 1,
              hero := \<lparr>x = 4, y = 1, hp = 10, maxHp = 10, attack = 1\<rparr>,
              mapTiles := (mapTiles startState)[1 := (mapTiles startState ! 1)[4 := TILE_EMPTY]]\<rparr>)
   \<and> hp (hero startState) + POTION_COUNT = 12
   \<and> phase_of (startState\<lparr>potionsCarried := 1,
              hero := \<lparr>x = 4, y = 1, hp = 10, maxHp = 10, attack = 1\<rparr>,
              mapTiles := (mapTiles startState)[1 := (mapTiles startState ! 1)[4 := TILE_EMPTY]]\<rparr>) = Playing"
proof -
  let ?m = "(mapTiles startState)[1 := (mapTiles startState ! 1)[4 := TILE_EMPTY]]"
  let ?s1 = "startState\<lparr>potionsCarried := 1,
              hero := \<lparr>x = 4, y = 1, hp = 10, maxHp = 10, attack = 1\<rparr>, mapTiles := ?m\<rparr>"
  note f = startState_facts
  from f(7) have g: "inGrid (mapTiles startState) 4 1" and c: "mapTiles startState ! 1 ! 4 = TILE_POTION"
    by (auto simp: readTile_def split: if_splits)
  have k: "keyMap ''a'' = Some (-1, 0)" by (simp add: keyMap_def)
  have mv: "attemptMove (-1) 0 startState = Inr ?s1"
    using g c f(2-6)
    by (simp add: attemptMove_def Let_def wrapX_def wrapY_def readTile_def writeTile_def
        checkPickup_def config_defs atTile_def adjacentEnemyDamage_def dirs_def damageFrom_def)
  have sw: "updateEnemies [0, 0, 0, 0, 0, 0, 0, 0, 0, 0] ?s1 = Inr ?s1"
    using f(2-6)
    by (simp add: updateEnemies_def updateEnemiesFrom.simps enemyTurn_def Let_def randomInt_def
        moves_def wrapX_def wrapY_def config_defs)
  have "handleInput ''a'' [0, 0, 0, 0, 0, 0, 0, 0, 0, 0] startState
          = updateEnemies [0, 0, 0, 0, 0, 0, 0, 0, 0, 0] ?s1"
    using f(6) by (simp add: handleInput_def k mv)
  from this sw have run: "handleInput ''a'' [0, 0, 0, 0, 0, 0, 0, 0, 0, 0] startState = Inr ?s1"
    by (rule trans)
  from hero_hp_in_range[OF reachable_startState run] have "phase_of ?s1 \<noteq> Lost" by simp
  moreover have "phase_of ?s1 \<noteq> Won" using f(6) by (simp add: phase_of_def)
  ultimately have ph: "phase_of ?s1 = Playing" by (cases "phase_of ?s1") simp_all
  have hp: "hp (hero startState) + POTION_COUNT = 12" using f(2) by (simp add: POTION_COUNT_def)
  from reachable_startState run hp ph show ?thesis by simp
qed

section \<open>C4: kill accounting\<close>

text \<open>
  C4. \<open>init\<close> returns with \<open>killed = 0\<close> and \<open>ENEMY_COUNT\<close> enemies placed, and in every
  reachable state \<open>killed\<close> plus the number of enemies left is \<open>ENEMY_COUNT\<close>: an enemy
  leaves the list only together with one increment of \<open>killed\<close>, and nothing else changes
  either. In particular the sum never exceeds the initial enemy count.
\<close>

theorem kill_accounting:
  "(init us g = Inr (s0, us0) \<longrightarrow> killed s0 = 0 \<and> int (length (enemies s0)) = ENEMY_COUNT)
   \<and> (reachable s \<longrightarrow> killed s + int (length (enemies s)) = ENEMY_COUNT)"
proof -
  have a: "killed s0 = 0 \<and> int (length (enemies s0)) = ENEMY_COUNT" if "init us g = Inr (s0, us0)"
    using init_establishes[OF that] by simp
  have b: "killed s + int (length (enemies s)) = ENEMY_COUNT" if "reachable s"
    using gameInvD(8)[OF reachable_inv[OF that]] .
  from a b show ?thesis by blast
qed

text \<open>
  An instance: the run of \<open>init\<close> on \<open>startDraws\<close>, and a fight. Four blows leave the
  enemy east of the hero with one hit point, each answered by a retaliation; the fifth
  kills it. The other nine enemies stay where they are.
\<close>

lemma fight_blow:
  assumes "1 < eh"
  shows "handleInput '' '' [0, 0, 0, 0, 0, 0, 0, 0, 0] (fightState h eh)
           = Inr (if h - 1 \<le> 0 then endGame (fightState (h - 1) (eh - 1)) else fightState (h - 1) (eh - 1))"
proof -
  note f = startState_facts
  have ha: "heroAttack (fightState h eh)
          = (let t = startState\<lparr>hero := (hero startState)\<lparr>hp := h - 1\<rparr>,
                       enemies := (enemies startState)[0 := (enemies startState ! 0)
                                     \<lparr>hp := eh - 1, justRetaliated := True\<rparr>]\<rparr>
             in if h - 1 \<le> 0 then endGame t else t)"
    using assms f(2-6)
    by (simp add: fightState_def heroAttack_def dirs_def attackSlot_def atTile_def Let_def
        ENEMY_COUNT_def)
  have k: "keyMap '' '' = None" by (simp add: keyMap_def)
  have g: "\<not> gameOver (fightState h eh)" using f(6) by (simp add: fightState_def)
  show ?thesis
    unfolding handleInput_def ha updateEnemies_def
    using assms f(2-6) g k
    by (simp add: fightState_def updateEnemiesFrom.simps enemyTurn_def Let_def randomInt_def
        moves_def wrapX_def wrapY_def config_defs endGame_def)
qed

lemma fight_kill:
  "handleInput '' '' [0, 0, 0, 0, 0, 0, 0, 0, 0] (fightState 6 1) = Inr afterKill"
proof -
  note f = startState_facts
  have ha: "heroAttack (fightState 6 1) = afterKill"
    using f(2-6)
    by (simp add: fightState_def afterKill_def heroAttack_def dirs_def attackSlot_def atTile_def
        splice1_def Let_def ENEMY_COUNT_def)
  have k: "keyMap '' '' = None" by (simp add: keyMap_def)
  have g: "\<not> gameOver (fightState 6 1)" using f(6) by (simp add: fightState_def)
  have sw: "updateEnemies [0, 0, 0, 0, 0, 0, 0, 0, 0] afterKill = Inr afterKill"
    using f(2-6)
    by (simp add: afterKill_def updateEnemies_def updateEnemiesFrom.simps enemyTurn_def Let_def
        randomInt_def moves_def wrapX_def wrapY_def config_defs)
  show ?thesis using g k sw by (simp add: handleInput_def ha)
qed

lemma reachable_afterKill: "reachable afterKill"
proof -
  have u: "list_all unitDraw [0, 0, 0, 0, 0, 0, 0, 0, 0]" by (simp add: unitDraw_def)
  have s0: "fightState 10 5 = startState"
    using startState_facts(2,3) by (simp add: fightState_def)
  have r0: "reachable (fightState 10 5)" using reachable_startState s0 by simp
  have r1: "reachable (fightState 9 4)"
    using reachable.action[OF r0 u, of "'' ''"] fight_blow[of 5 10] by simp
  have r2: "reachable (fightState 8 3)"
    using reachable.action[OF r1 u, of "'' ''"] fight_blow[of 4 9] by simp
  have r3: "reachable (fightState 7 2)"
    using reachable.action[OF r2 u, of "'' ''"] fight_blow[of 3 8] by simp
  have r4: "reachable (fightState 6 1)"
    using reachable.action[OF r3 u, of "'' ''"] fight_blow[of 2 7] by simp
  show ?thesis
    using reachable.action[OF r4 u, of "'' ''"] fight_kill by simp
qed

theorem kill_accounting_witness:
  "init startDraws initialGlobals = Inr (startState, [])
   \<and> killed startState = 0 \<and> int (length (enemies startState)) = ENEMY_COUNT
   \<and> reachable afterKill \<and> killed afterKill = 1 \<and> length (enemies afterKill) = 9
   \<and> killed afterKill + int (length (enemies afterKill)) = ENEMY_COUNT"
proof -
  note th1 = kill_accounting[of startDraws initialGlobals startState "[]" afterKill]
  from th1 startState_facts(1) have a: "killed startState = 0 \<and> int (length (enemies startState)) = ENEMY_COUNT"
    by blast
  from th1 reachable_afterKill have b: "killed afterKill + int (length (enemies afterKill)) = ENEMY_COUNT"
    by blast
  have c: "killed afterKill = 1" "length (enemies afterKill) = 9"
    using startState_facts(3) by (simp_all add: afterKill_def)
  from a b c startState_facts(1) reachable_afterKill show ?thesis by blast
qed

subsection \<open>Items on a freshly generated map\<close>

lemma set_concat_update:
  "set (concat (m[i := r])) \<subseteq> set r \<union> set (concat m)"
proof (induction m arbitrary: i)
  case Nil
  then show ?case by simp
next
  case (Cons c m)
  show ?case
  proof (cases i)
    case 0
    then show ?thesis by auto
  next
    case (Suc j)
    with Cons.IH[of j] show ?thesis by auto
  qed
qed

lemma writeTile_tiles:
  assumes "writeTile m cx cy t = Inr m1"
  shows "set (concat m1) \<subseteq> insert t (set (concat m))"
proof -
  from assms have g: "inGrid m cx cy" and m1: "m1 = m[nat cy := (m ! nat cy)[nat cx := t]]"
    by (auto simp: writeTile_def split: if_splits)
  from g have "m ! nat cy \<in> set m" by (auto simp: inGrid_def)
  then have row: "set (m ! nat cy) \<subseteq> set (concat m)" by auto
  have "set ((m ! nat cy)[nat cx := t]) \<subseteq> insert t (set (m ! nat cy))"
    by (rule set_update_subset_insert)
  with row set_concat_update[of m "nat cy" "(m ! nat cy)[nat cx := t]"] show ?thesis
    unfolding m1 by blast
qed

lemma carve_tiles:
  "carve m cs = Inr m1 \<Longrightarrow> set (concat m1) \<subseteq> insert TILE_EMPTY (set (concat m))"
proof (induction cs arbitrary: m)
  case Nil
  then show ?case by auto
next
  case (Cons c cs)
  from Cons.prems obtain m0 where w: "writeTile m (fst c) (snd c) TILE_EMPTY = Inr m0"
    and r: "carve m0 cs = Inr m1"
    by (auto split: sum.splits)
  from writeTile_tiles[OF w] Cons.IH[OF r] show ?case by blast
qed

lemma placeRoomsLoop_tiles:
  "placeRoomsLoop n us s = Inr (s1, us1)
     \<Longrightarrow> set (concat (mapTiles s1)) \<subseteq> insert TILE_EMPTY (set (concat (mapTiles s)))"
proof (induction n arbitrary: us s)
  case 0
  then show ?case by auto
next
  case (Suc n)
  from Suc.prems obtain uw uh ux uy us2 where us: "us = uw # uh # ux # uy # us2"
    by (auto split: list.splits)
  with Suc.prems obtain m r where m: "carve (mapTiles s) (roomCells r) = Inr m"
    and rest: "placeRoomsLoop n us2 (s\<lparr>rooms := rooms s @ [r], mapTiles := m\<rparr>) = Inr (s1, us1)"
    by (auto simp: Let_def split: sum.splits)
  from Suc.IH[OF rest] carve_tiles[OF m] show ?case by auto
qed

lemma connectRooms_tiles:
  "connectRooms rs m = Inr m1 \<Longrightarrow> set (concat m1) \<subseteq> insert TILE_EMPTY (set (concat m))"
proof (induction rs m rule: connectRooms.induct)
  case (1 r1 r2 rs m)
  let ?x1 = "room_x r1 + room_w r1 div 2" and ?y1 = "room_y r1 + room_h r1 div 2"
  let ?x2 = "room_x r2 + room_w r2 div 2" and ?y2 = "room_y r2 + room_h r2 div 2"
  from "1.prems"(1) obtain ma mb where
    a: "carve m (map (\<lambda>cx. (cx, ?y1)) [min ?x1 ?x2 .. max ?x1 ?x2]) = Inr ma" and
    b: "carve ma (map (\<lambda>cy. (?x2, cy)) [min ?y1 ?y2 .. max ?y1 ?y2]) = Inr mb" and
    c: "connectRooms (r2 # rs) mb = Inr m1"
    by (auto simp: Let_def split: sum.splits)
  from carve_tiles[OF a] carve_tiles[OF b] "1.IH"[OF refl refl refl refl a b c] show ?case
    by blast
qed auto

lemma hCorridors_tiles:
  "hCorridors n us m = Inr (m1, us1) \<Longrightarrow> set (concat m1) \<subseteq> insert TILE_EMPTY (set (concat m))"
proof (induction n arbitrary: us m)
  case 0
  then show ?case by auto
next
  case (Suc n)
  from Suc.prems(1) obtain u us2 m0 where
    a: "carve m (map (\<lambda>cx. (cx, randomInt 1 (MAP_HEIGHT - 2) u)) [0 .. MAP_WIDTH - 1]) = Inr m0" and
    b: "hCorridors n us2 m0 = Inr (m1, us1)"
    by (auto simp: Let_def split: list.splits sum.splits)
  from carve_tiles[OF a] Suc.IH[OF b] show ?case by blast
qed

lemma vCorridors_tiles:
  "vCorridors n us m = Inr (m1, us1) \<Longrightarrow> set (concat m1) \<subseteq> insert TILE_EMPTY (set (concat m))"
proof (induction n arbitrary: us m)
  case 0
  then show ?case by auto
next
  case (Suc n)
  from Suc.prems(1) obtain u us2 m0 where
    a: "carve m (map (\<lambda>cy. (randomInt 1 (MAP_WIDTH - 2) u, cy)) [0 .. MAP_HEIGHT - 1]) = Inr m0" and
    b: "vCorridors n us2 m0 = Inr (m1, us1)"
    by (auto simp: Let_def split: list.splits sum.splits)
  from carve_tiles[OF a] Suc.IH[OF b] show ?case by blast
qed

lemma countTile_absent: "t \<notin> set (concat m) \<Longrightarrow> countTile t m = 0"
  by (auto simp: countTile_def filter_empty_conv)

lemma placeEnemiesLoop_map:
  "placeEnemiesLoop count us s = Inr (s1, us1) \<Longrightarrow> mapTiles s1 = mapTiles s"
proof (induction count us s rule: placeEnemiesLoop.induct)
  case (1 count us s)
  show ?case
  proof (cases "count < ENEMY_COUNT")
    case False
    with "1.prems" show ?thesis by (simp add: placeEnemiesLoop.simps[of count us s])
  next
    case True
    note run = "1.prems"(1)[unfolded placeEnemiesLoop.simps[of count us s]]
    from True run obtain ux uy us2 where us: "us = ux # uy # us2"
      by (auto split: list.splits)
    let ?cx = "randomInt 0 (MAP_WIDTH - 1) ux" and ?cy = "randomInt 0 (MAP_HEIGHT - 1) uy"
    from True run us obtain t0 where t0: "readTile (mapTiles s) ?cx ?cy = Inr t0"
      by (auto simp: Let_def split: sum.splits)
    let ?ok = "t0 = TILE_EMPTY \<and> (?cx \<noteq> x (hero s) \<or> ?cy \<noteq> y (hero s))
                 \<and> \<not> list_ex (atTile ?cx ?cy) (enemies s)"
    show ?thesis
    proof (cases ?ok)
      case False
      with True us t0 run have "placeEnemiesLoop count us2 s = Inr (s1, us1)"
        by (auto simp: Let_def)
      from "1.IH"(2)[OF True us refl refl refl t0 False this] show ?thesis .
    next
      case ok: True
      with True us t0 run have
        "placeEnemiesLoop (count + 1) us2
           (s\<lparr>enemies := enemies s @ [\<lparr>x = ?cx, y = ?cy, hp = ENEMY_HP, maxHp = ENEMY_HP,
                  attack = ENEMY_ATTACK, justRetaliated = False\<rparr>]\<rparr>) = Inr (s1, us1)"
        by (simp add: Let_def)
      from "1.IH"(1)[OF True us refl refl refl t0 ok this] show ?thesis by simp
    qed
  qed
qed

lemma init_item_counts:
  assumes "init us s = Inr (s1, us1)"
  shows "countTile TILE_SWORD (mapTiles s1) = 2 \<and> countTile TILE_POTION (mapTiles s1) = 10"
proof -
  let ?s0 = "generateMap (s\<lparr>potionsCarried := 0, killed := 0, gameOver := False, winFlag := False\<rparr>)"
  from assms obtain sa ua sb ub sc uc sd ud where
    a: "placeRooms us ?s0 = Inr (sa, ua)" and
    b: "carveCorridors ua sa = Inr (sb, ub)" and
    c: "placeHero ub sb = Inr (sc, uc)" and
    d: "placeItems uc sc = Inr (sd, ud)" and
    e: "placeEnemies ud sd = Inr (s1, us1)"
    by (auto simp: init_def Let_def split: sum.splits)
  have t0: "set (concat (mapTiles ?s0)) \<subseteq> {TILE_WALL}"
    by (auto simp: generateMap_def)
  from a obtain uc0 us0 where
    "placeRoomsLoop (nat (randomInt ROOM_COUNT_MIN ROOM_COUNT_MAX uc0)) us0 (?s0\<lparr>rooms := []\<rparr>) = Inr (sa, ua)"
    by (auto simp: placeRooms_def split: list.splits)
  from placeRoomsLoop_tiles[OF this]
  have "set (concat (mapTiles sa)) \<subseteq> insert TILE_EMPTY (set (concat (mapTiles ?s0)))" by simp
  with t0 have ta: "set (concat (mapTiles sa)) \<subseteq> {TILE_WALL, TILE_EMPTY}" by blast
  from b obtain ma uh uv us2 mb us3 mc where
    b1: "connectRooms (rooms sa) (mapTiles sa) = Inr ma" and
    b2: "hCorridors (nat (randomInt CORRIDOR_MIN CORRIDOR_MAX uh)) us2 ma = Inr (mb, us3)" and
    b3: "vCorridors (nat (randomInt CORRIDOR_MIN CORRIDOR_MAX uv)) us3 mb = Inr (mc, ub)" and
    sb: "sb = sa\<lparr>mapTiles := mc\<rparr>"
    by (auto simp: carveCorridors_def Let_def split: sum.splits list.splits)
  from connectRooms_tiles[OF b1] hCorridors_tiles[OF b2] vCorridors_tiles[OF b3] ta
  have "set (concat mc) \<subseteq> {TILE_WALL, TILE_EMPTY}" by blast
  with sb have tb: "set (concat (mapTiles sb)) \<subseteq> {TILE_WALL, TILE_EMPTY}" by simp
  from placeHero_frame[OF c] tb have tc: "set (concat (mapTiles sc)) \<subseteq> {TILE_WALL, TILE_EMPTY}"
    by simp
  then have "TILE_SWORD \<notin> set (concat (mapTiles sc))" "TILE_POTION \<notin> set (concat (mapTiles sc))"
    by blast+
  then have z: "countTile TILE_SWORD (mapTiles sc) = 0" "countTile TILE_POTION (mapTiles sc) = 0"
    by (simp_all add: countTile_absent)
  from e have "mapTiles s1 = mapTiles sd"
    using placeEnemiesLoop_map[of 0 ud "sd\<lparr>enemies := []\<rparr>" s1 us1] by (simp add: placeEnemies_def)
  with placeItems_counts[OF d] z show ?thesis by simp
qed

lemma writeTile_same:
  assumes "writeTile m a b t = Inr m1"
  shows "readTile m1 a b = Inr t"
proof -
  from assms have g: "inGrid m a b" and m1: "m1 = m[nat b := (m ! nat b)[nat a := t]]"
    by (auto simp: writeTile_def split: if_splits)
  from g have "inGrid m1 a b" unfolding m1 by (auto simp: inGrid_def)
  moreover from g have "m1 ! nat b ! nat a = t" unfolding m1 by (auto simp: inGrid_def)
  ultimately show ?thesis by (simp add: readTile_def)
qed

lemma placeTiles_changed:
  assumes "placeTiles t limit placed us s = Inr (s1, us1)" "t \<noteq> TILE_EMPTY"
  shows "\<forall>cx cy. readTile (mapTiles s1) cx cy \<noteq> readTile (mapTiles s) cx cy \<longrightarrow>
           readTile (mapTiles s) cx cy = Inr TILE_EMPTY \<and> readTile (mapTiles s1) cx cy = Inr t
           \<and> \<not> (cx = x (hero s) \<and> cy = y (hero s))"
  using assms
proof (induction t limit placed us s rule: placeTiles.induct)
  case (1 t limit placed us s)
  show ?case
  proof (cases "placed < limit")
    case False
    with "1.prems" show ?thesis by (simp add: placeTiles.simps[of t limit placed us s])
  next
    case True
    note run = "1.prems"(1)[unfolded placeTiles.simps[of t limit placed us s]]
    from True run obtain ux uy us2 where us: "us = ux # uy # us2"
      by (auto split: list.splits)
    let ?cx = "randomInt 0 (MAP_WIDTH - 1) ux" and ?cy = "randomInt 0 (MAP_HEIGHT - 1) uy"
    from True run us obtain t0 where t0: "readTile (mapTiles s) ?cx ?cy = Inr t0"
      by (auto simp: Let_def split: sum.splits)
    show ?thesis
    proof (cases "t0 = TILE_EMPTY \<and> \<not> (?cx = x (hero s) \<and> ?cy = y (hero s))")
      case False
      with True us t0 run have "placeTiles t limit placed us2 s = Inr (s1, us1)"
        by (auto simp: Let_def)
      from "1.IH"(2)[OF True us refl refl refl t0 False this "1.prems"(2)] show ?thesis .
    next
      case ok: True
      from True us t0 ok run obtain m where
        m: "writeTile (mapTiles s) ?cx ?cy t = Inr m"
        by (auto simp: Let_def split: sum.splits)
      with True us t0 ok run have
        rec: "placeTiles t limit (placed + 1) us2 (s\<lparr>mapTiles := m\<rparr>) = Inr (s1, us1)"
        by (simp add: Let_def)
      note ih = "1.IH"(1)[OF True us refl refl refl t0 ok m rec "1.prems"(2)]
      show ?thesis
      proof (intro allI impI)
        fix cx cy
        assume ch: "readTile (mapTiles s1) cx cy \<noteq> readTile (mapTiles s) cx cy"
        show "readTile (mapTiles s) cx cy = Inr TILE_EMPTY \<and> readTile (mapTiles s1) cx cy = Inr t
                \<and> \<not> (cx = x (hero s) \<and> cy = y (hero s))"
        proof (cases "(cx, cy) = (?cx, ?cy)")
          case True
          have now: "readTile m cx cy = Inr t" using writeTile_same[OF m] True by simp
          have "readTile (mapTiles s1) cx cy = readTile m cx cy"
          proof (rule ccontr)
            assume "readTile (mapTiles s1) cx cy \<noteq> readTile m cx cy"
            with ih have "readTile m cx cy = Inr TILE_EMPTY" by simp
            with now "1.prems"(2) show False by simp
          qed
          with now t0 ok True show ?thesis by auto
        next
          case False
          from writeTile_other[OF m False] have same: "readTile m cx cy = readTile (mapTiles s) cx cy" .
          with ch have "readTile (mapTiles s1) cx cy \<noteq> readTile m cx cy" by simp
          with ih[rule_format, of cx cy] same show ?thesis by simp
        qed
      qed
    qed
  qed
qed

lemma placeItems_changed:
  assumes "placeItems us s = Inr (s1, us1)"
  shows "\<forall>cx cy. readTile (mapTiles s1) cx cy \<noteq> readTile (mapTiles s) cx cy \<longrightarrow>
           readTile (mapTiles s) cx cy = Inr TILE_EMPTY
           \<and> (readTile (mapTiles s1) cx cy = Inr TILE_SWORD \<or> readTile (mapTiles s1) cx cy = Inr TILE_POTION)
           \<and> \<not> (cx = x (hero s) \<and> cy = y (hero s))"
proof (intro allI impI)
  fix cx cy
  assume ch: "readTile (mapTiles s1) cx cy \<noteq> readTile (mapTiles s) cx cy"
  from assms obtain s0 us0 where
    a: "placeTiles TILE_SWORD 2 0 us s = Inr (s0, us0)" and
    b: "placeTiles TILE_POTION 10 0 us0 s0 = Inr (s1, us1)"
    by (auto simp: placeItems_def split: sum.splits)
  note ca = placeTiles_changed[OF a] and cb = placeTiles_changed[OF b]
  have h0: "hero s0 = hero s" using placeTiles_frame[OF a] by simp
  show "readTile (mapTiles s) cx cy = Inr TILE_EMPTY
           \<and> (readTile (mapTiles s1) cx cy = Inr TILE_SWORD \<or> readTile (mapTiles s1) cx cy = Inr TILE_POTION)
           \<and> \<not> (cx = x (hero s) \<and> cy = y (hero s))"
  proof (cases "readTile (mapTiles s1) cx cy = readTile (mapTiles s0) cx cy")
    case True
    with ch ca show ?thesis by simp
  next
    case False
    with cb h0 have p: "readTile (mapTiles s0) cx cy = Inr TILE_EMPTY"
      "readTile (mapTiles s1) cx cy = Inr TILE_POTION" "\<not> (cx = x (hero s) \<and> cy = y (hero s))"
      by simp_all
    have "readTile (mapTiles s0) cx cy = readTile (mapTiles s) cx cy"
    proof (rule ccontr)
      assume "readTile (mapTiles s0) cx cy \<noteq> readTile (mapTiles s) cx cy"
      with ca have "readTile (mapTiles s0) cx cy = Inr TILE_SWORD" by simp
      with p(1) show False by simp
    qed
    with p show ?thesis by simp
  qed
qed

section \<open>C1: what placeItems places\<close>

text \<open>
  C1, as the code has it. Whenever \<open>placeItems\<close> returns, the grid holds two sword tiles
  and ten potion tiles more than before, and whenever \<open>init\<close> returns, the grid holds
  exactly 2 sword tiles and 10 potion tiles: not the 1 and \<open>POTION_COUNT = 2\<close> of the
  claim. The rest of the claim holds: every cell \<open>placeItems\<close> changed was Empty, holds a
  sword or a potion afterwards, and is not the hero's cell.
\<close>

theorem placeItems_places_2_and_10:
  "(placeItems us s = Inr (s1, us1) \<longrightarrow>
      countTile TILE_SWORD (mapTiles s1) = countTile TILE_SWORD (mapTiles s) + 2
      \<and> countTile TILE_POTION (mapTiles s1) = countTile TILE_POTION (mapTiles s) + 10
      \<and> (\<forall>cx cy. readTile (mapTiles s1) cx cy \<noteq> readTile (mapTiles s) cx cy \<longrightarrow>
            readTile (mapTiles s) cx cy = Inr TILE_EMPTY
            \<and> (readTile (mapTiles s1) cx cy = Inr TILE_SWORD \<or> readTile (mapTiles s1) cx cy = Inr TILE_POTION)
            \<and> \<not> (cx = x (hero s) \<and> cy = y (hero s))))
   \<and> (init us0 g = Inr (s2, us2) \<longrightarrow>
        countTile TILE_SWORD (mapTiles s2) = 2 \<and> countTile TILE_POTION (mapTiles s2) = 10)"
  using placeItems_counts[of us s s1 us1] placeItems_changed[of us s s1 us1]
    init_item_counts[of us0 g s2 us2]
  by blast

theorem placeItems_places_2_and_10_witness:
  "placeItems itemDraws itemState =
     Inr (itemState\<lparr>mapTiles :=
            corridorGrid[1 := (replicate 40 TILE_EMPTY)
              [2 := TILE_SWORD, 3 := TILE_SWORD, 4 := TILE_POTION, 5 := TILE_POTION,
               6 := TILE_POTION, 7 := TILE_POTION, 8 := TILE_POTION, 9 := TILE_POTION,
               10 := TILE_POTION, 11 := TILE_POTION, 12 := TILE_POTION, 13 := TILE_POTION]]\<rparr>, [])
   \<and> countTile TILE_SWORD (mapTiles itemState) = 0
   \<and> countTile TILE_POTION (mapTiles itemState) = 0
   \<and> countTile TILE_SWORD (corridorGrid[1 := (replicate 40 TILE_EMPTY)
              [2 := TILE_SWORD, 3 := TILE_SWORD, 4 := TILE_POTION, 5 := TILE_POTION,
               6 := TILE_POTION, 7 := TILE_POTION, 8 := TILE_POTION, 9 := TILE_POTION,
               10 := TILE_POTION, 11 := TILE_POTION, 12 := TILE_POTION, 13 := TILE_POTION]]) = 2
   \<and> countTile TILE_POTION (corridorGrid[1 := (replicate 40 TILE_EMPTY)
              [2 := TILE_SWORD, 3 := TILE_SWORD, 4 := TILE_POTION, 5 := TILE_POTION,
               6 := TILE_POTION, 7 := TILE_POTION, 8 := TILE_POTION, 9 := TILE_POTION,
               10 := TILE_POTION, 11 := TILE_POTION, 12 := TILE_POTION, 13 := TILE_POTION]]) = 10
   \<and> init startDraws initialGlobals = Inr (startState, [])
   \<and> countTile TILE_SWORD (mapTiles startState) = 2
   \<and> countTile TILE_POTION (mapTiles startState) = 10"
proof -
  let ?g = "corridorGrid[1 := (replicate 40 TILE_EMPTY)
              [2 := TILE_SWORD, 3 := TILE_SWORD, 4 := TILE_POTION, 5 := TILE_POTION,
               6 := TILE_POTION, 7 := TILE_POTION, 8 := TILE_POTION, 9 := TILE_POTION,
               10 := TILE_POTION, 11 := TILE_POTION, 12 := TILE_POTION, 13 := TILE_POTION]]"
  have run: "placeItems itemDraws itemState = Inr (itemState\<lparr>mapTiles := ?g\<rparr>, [])"
    by (simp add: placeItems_def placeTiles.simps itemDraws_def itemState_def upt_rec_numeral randomInt_def
        readTile_def writeTile_def inGrid_def corridorGrid_def config_defs Let_def)
  have z: "countTile TILE_SWORD (mapTiles itemState) = 0" "countTile TILE_POTION (mapTiles itemState) = 0"
    by (simp_all add: itemState_def countTile_corridorGrid)
  note th = placeItems_places_2_and_10[of itemDraws itemState "itemState\<lparr>mapTiles := ?g\<rparr>" "[]"
      startDraws initialGlobals startState "[]"]
  from th run z have c: "countTile TILE_SWORD ?g = 2" "countTile TILE_POTION ?g = 10" by simp_all
  from th startState_facts(1) have d: "countTile TILE_SWORD (mapTiles startState) = 2"
    "countTile TILE_POTION (mapTiles startState) = 10" by blast+
  from run z c d startState_facts(1) show ?thesis by simp
qed

end
